theory Spec2Isabelle
  imports Main "HOL-Library.Word" "HOL-Library.Monad_Syntax" "HOL-Library.Log_Nat"
begin

unbundle bit_operations_syntax

section \<open>The expandable bitset of \<open>abitset_expandable.c\<close>\<close>

text \<open>
  The embedding follows \<open>src/abitset_expandable.c\<close> function by function. The fields of
  \<open>struct abitset_expandable_s\<close> are \<open>uint32_t\<close> and become \<open>32 word\<close>; a page is a block of
  \<open>uint64_t\<close> and becomes a list of \<open>64 word\<close>; the directory \<open>uint64_t **pages\<close> becomes a
  list whose entries are \<open>None\<close> for a null pointer and \<open>Some p\<close> for an allocated page. The
  length of a list is the length of the allocated block it stands for.

  Every function that reads or writes memory returns an \<open>option\<close>: \<open>None\<close> stands for a call
  with no defined result, which is either an access outside an allocated block (also through
  a null page pointer) or the doubling loop of \<open>abitset_expandable_expand\<close> not returning.
  Failure of the allocator is not modelled: \<open>aml_zalloc\<close> always returns a zero-filled block.
\<close>

subsection \<open>Constants\<close>

type_synonym page = "64 word list"

definition PAGE_SIZE :: "32 word" where
  "PAGE_SIZE = push_bit 12 1"

definition PAGE_ENTRIES :: "32 word" where
  "PAGE_ENTRIES = drop_bit 3 PAGE_SIZE"

definition INITIAL_PAGES :: "32 word" where
  "INITIAL_PAGES = push_bit 11 1"

subsection \<open>Memory blocks\<close>

text \<open>\<open>aml_zalloc(PAGE_SIZE)\<close>: a block of \<open>PAGE_SIZE\<close> bytes, that is \<open>PAGE_SIZE / 8\<close> words.\<close>

definition zalloc_page :: page where
  "zalloc_page = replicate (unat PAGE_SIZE div 8) 0"

text \<open>Reading and writing one element of a block, and \<open>memcpy\<close> of \<open>n\<close> elements from the
  start of \<open>src\<close> to offset \<open>off\<close> of \<open>dst\<close>; each is \<open>None\<close> outside the block.\<close>

definition load_at :: "'a list \<Rightarrow> nat \<Rightarrow> 'a option" where
  "load_at xs i = (if i < length xs then Some (xs ! i) else None)"

definition store_at :: "'a list \<Rightarrow> nat \<Rightarrow> 'a \<Rightarrow> 'a list option" where
  "store_at xs i v = (if i < length xs then Some (xs[i := v]) else None)"

definition memcpy :: "'a list \<Rightarrow> nat \<Rightarrow> 'a list \<Rightarrow> nat \<Rightarrow> 'a list option" where
  "memcpy dst off src n =
     (if off + n \<le> length dst \<and> n \<le> length src
      then Some (take off dst @ take n src @ drop (off + n) dst)
      else None)"

subsection \<open>The handle\<close>

record abitset_expandable =
  pages :: "page option list"
  page_count :: "32 word"
  size_field :: "32 word"
  max_bit :: "32 word"

definition abitset_expandable_init :: abitset_expandable where
  "abitset_expandable_init =
     \<lparr> pages = replicate (unat INITIAL_PAGES) None,
       page_count = INITIAL_PAGES,
       size_field = 0,
       max_bit = 0 \<rparr>"

subsection \<open>Addressing\<close>

text \<open>The three locals \<open>page\<close>, \<open>offset\<close> and \<open>bit\<close> of \<open>set\<close>, \<open>unset\<close> and \<open>enabled\<close>:
  \<open>id >> 18\<close>, \<open>(id >> 6) & (PAGE_ENTRIES - 1)\<close> and \<open>id & 63\<close>.\<close>

definition page_of :: "32 word \<Rightarrow> 32 word" where
  "page_of ident = drop_bit 18 ident"

definition offset_of :: "32 word \<Rightarrow> 32 word" where
  "offset_of ident = drop_bit 6 ident AND (PAGE_ENTRIES - 1)"

definition bit_of :: "32 word \<Rightarrow> 32 word" where
  "bit_of ident = ident AND 63"

text \<open>\<open>1ULL << bit\<close>.\<close>

definition bit_mask :: "32 word \<Rightarrow> 64 word" where
  "bit_mask b = push_bit (unat b) 1"

subsection \<open>Growth\<close>

text \<open>The loop \<open>while (required_page >= new_page_count) new_page_count <<= 1;\<close>. It does not
  return when \<open>new_page_count\<close> is 0, so it is a partial function: \<open>None\<close> is not returning.\<close>

partial_function (option) grow_page_count :: "32 word \<Rightarrow> 32 word \<Rightarrow> 32 word option" where
  "grow_page_count required_page new_page_count =
     (if required_page \<ge> new_page_count
      then grow_page_count required_page (push_bit 1 new_page_count)
      else Some new_page_count)"

definition abitset_expandable_expand ::
  "abitset_expandable \<Rightarrow> 32 word \<Rightarrow> abitset_expandable option" where
  "abitset_expandable_expand h ident =
     (let required_page = drop_bit 18 ident;
          h1 = (if ident > max_bit h then h\<lparr>max_bit := ident\<rparr> else h)
      in do {
        h2 \<leftarrow> (if required_page \<ge> page_count h1 then do {
                 new_page_count \<leftarrow> grow_page_count required_page (page_count h1);
                 new_pages \<leftarrow> memcpy (replicate (unat new_page_count) None) 0
                                (pages h1) (unat (page_count h1));
                 Some (h1\<lparr>pages := new_pages, page_count := new_page_count\<rparr>)
               } else Some h1);
        slot \<leftarrow> load_at (pages h2) (unat required_page);
        h3 \<leftarrow> (if slot = None then do {
                 new_pages \<leftarrow> store_at (pages h2) (unat required_page) (Some zalloc_page);
                 Some (h2\<lparr>pages := new_pages\<rparr>)
               } else Some h2);
        let new_size = push_bit 18 (required_page + 1);
        Some (if new_size > size_field h3 then h3\<lparr>size_field := new_size\<rparr> else h3)
      })"

subsection \<open>Bit operations\<close>

text \<open>\<open>h->pages[page][offset] = f (h->pages[page][offset])\<close>: the page pointer is read from
  the directory and dereferenced; the page is changed in place.\<close>

definition update_word ::
  "abitset_expandable \<Rightarrow> 32 word \<Rightarrow> 32 word \<Rightarrow> (64 word \<Rightarrow> 64 word) \<Rightarrow> abitset_expandable option"
  where
  "update_word h page offset f = do {
     slot \<leftarrow> load_at (pages h) (unat page);
     p \<leftarrow> slot;
     w \<leftarrow> load_at p (unat offset);
     p' \<leftarrow> store_at p (unat offset) (f w);
     new_pages \<leftarrow> store_at (pages h) (unat page) (Some p');
     Some (h\<lparr>pages := new_pages\<rparr>)
   }"

definition abitset_expandable_set ::
  "abitset_expandable \<Rightarrow> 32 word \<Rightarrow> abitset_expandable option" where
  "abitset_expandable_set h ident = do {
     h1 \<leftarrow> abitset_expandable_expand h ident;
     update_word h1 (page_of ident) (offset_of ident) (\<lambda>w. w OR bit_mask (bit_of ident))
   }"

definition abitset_expandable_unset ::
  "abitset_expandable \<Rightarrow> 32 word \<Rightarrow> abitset_expandable option" where
  "abitset_expandable_unset h ident = do {
     h1 \<leftarrow> abitset_expandable_expand h ident;
     update_word h1 (page_of ident) (offset_of ident) (\<lambda>w. w AND NOT (bit_mask (bit_of ident)))
   }"

definition abitset_expandable_enabled :: "abitset_expandable \<Rightarrow> 32 word \<Rightarrow> bool option" where
  "abitset_expandable_enabled h ident =
     (if ident \<ge> max_bit h then Some False
      else if page_of ident \<ge> page_count h then Some False
      else do {
        slot \<leftarrow> load_at (pages h) (unat (page_of ident));
        case slot of
          None \<Rightarrow> Some False
        | Some p \<Rightarrow> do {
            w \<leftarrow> load_at p (unat (offset_of ident));
            Some (w AND bit_mask (bit_of ident) \<noteq> 0)
          }
      })"

text \<open>The loop \<open>while (val) { val &= (val - 1); count++; }\<close>.\<close>

function count_word :: "64 word \<Rightarrow> 32 word \<Rightarrow> 32 word" where
  "count_word val count =
     (if val \<noteq> 0 then count_word (val AND (val - 1)) (count + 1) else count)"
  by pat_completeness auto
termination
proof (relation "measure (\<lambda>(val, count). unat val)")
  show "wf (measure (\<lambda>(val, count). unat val))"
    by simp
next
  fix val :: "64 word" and count :: "32 word"
  assume nz: "val \<noteq> 0"
  have "val AND (val - 1) \<le> val - 1"
    by (rule word_and_le1)
  moreover have "val - 1 < val"
    using nz by (simp add: word_less_nat_alt unat_minus_one unat_gt_0)
  ultimately have "unat (val AND (val - 1)) < unat val"
    by (simp add: word_less_nat_alt word_le_nat_alt)
  then show "((val AND (val - 1), count + 1), (val, count)) \<in> measure (\<lambda>(val, count). unat val)"
    by simp
qed

text \<open>The inner loop reads \<open>h->pages[i][j]\<close> for every \<open>j < PAGE_ENTRIES\<close>.\<close>

definition count_page :: "page \<Rightarrow> 32 word \<Rightarrow> 32 word option" where
  "count_page p count =
     (if unat PAGE_ENTRIES \<le> length p
      then Some (fold count_word (take (unat PAGE_ENTRIES) p) count)
      else None)"

text \<open>The outer loop over the directory entries, skipping null entries.\<close>

fun count_pages :: "page option list \<Rightarrow> 32 word \<Rightarrow> 32 word option" where
  "count_pages [] count = Some count"
| "count_pages (None # ps) count = count_pages ps count"
| "count_pages (Some p # ps) count = do {
     count' \<leftarrow> count_page p count;
     count_pages ps count'
   }"

definition abitset_expandable_count :: "abitset_expandable \<Rightarrow> 32 word option" where
  "abitset_expandable_count h =
     (if unat (page_count h) \<le> length (pages h)
      then count_pages (take (unat (page_count h)) (pages h)) 0
      else None)"

definition abitset_expandable_size :: "abitset_expandable \<Rightarrow> 32 word" where
  "abitset_expandable_size h = max_bit h + 1"

subsection \<open>Serialization\<close>

text \<open>The loop of \<open>abitset_expandable_repr\<close> over the directory entries from index \<open>i\<close> on:
  \<open>ps\<close> holds the entries \<open>i\<close>, \<open>i + 1\<close>, ... still to visit, \<open>repr\<close> is the output buffer.
  \<open>bytes_to_copy\<close> is a multiple of 8, and \<open>memcpy\<close> copies \<open>bytes_to_copy / 8\<close> words.\<close>

fun repr_pages ::
  "32 word \<Rightarrow> 32 word \<Rightarrow> page option list \<Rightarrow> 64 word list \<Rightarrow> 64 word list option" where
  "repr_pages size' i [] repr = Some repr"
| "repr_pages size' i (None # ps) repr = repr_pages size' (i + 1) ps repr"
| "repr_pages size' i (Some p # ps) repr =
     (let start_idx = push_bit 9 i;
          bits_remaining = size' - push_bit 6 start_idx;
          bytes_to_copy = (if bits_remaining \<ge> push_bit 6 PAGE_ENTRIES
                           then PAGE_SIZE
                           else push_bit 3 (drop_bit 6 (bits_remaining + 63)))
      in do {
        repr' \<leftarrow> memcpy repr (unat start_idx) p (unat bytes_to_copy div 8);
        repr_pages size' (i + 1) ps repr'
      })"

definition abitset_expandable_repr :: "abitset_expandable \<Rightarrow> 64 word list option" where
  "abitset_expandable_repr h =
     (let size' = max_bit h + 1;
          num_entries = drop_bit 6 (size' + 63);
          repr = replicate (unat num_entries) 0
      in if unat (page_count h) \<le> length (pages h)
         then repr_pages size' 0 (take (unat (page_count h)) (pages h)) repr
         else None)"

text \<open>The loop of \<open>abitset_expandable_load\<close> from index \<open>i\<close> on: \<open>vs\<close> holds the words
  \<open>repr[i]\<close>, \<open>repr[i + 1]\<close>, ... still to visit. The store \<open>h->pages[page][offset] = value\<close>
  is \<open>update_word\<close> with a constant function: the old word is not used.\<close>

fun load_words ::
  "32 word \<Rightarrow> 64 word list \<Rightarrow> abitset_expandable \<Rightarrow> abitset_expandable option" where
  "load_words i [] h = Some h"
| "load_words i (v # vs) h =
     (if v \<noteq> 0 then
        (let page = drop_bit 9 i; offset = i AND (PAGE_ENTRIES - 1) in do {
           slot \<leftarrow> load_at (pages h) (unat page);
           h1 \<leftarrow> (if slot = None then do {
                    new_pages \<leftarrow> store_at (pages h) (unat page) (Some zalloc_page);
                    Some (h\<lparr>pages := new_pages\<rparr>)
                  } else Some h);
           h2 \<leftarrow> update_word h1 page offset (\<lambda>w. v);
           load_words (i + 1) vs h2
         })
      else load_words (i + 1) vs h)"

definition abitset_expandable_load ::
  "64 word list \<Rightarrow> 32 word \<Rightarrow> abitset_expandable option" where
  "abitset_expandable_load repr size' =
     (let h = abitset_expandable_init;
          num_entries = drop_bit 6 (size' + 63)
      in do {
        h1 \<leftarrow> abitset_expandable_expand h (size' - 1);
        h2 \<leftarrow> (if unat num_entries \<le> length repr
               then load_words 0 (take (unat num_entries) repr) h1
               else None);
        Some (h2\<lparr>max_bit := size' - 1\<rparr>)
      })"

subsection \<open>Call sequences\<close>

text \<open>A client that calls \<open>set\<close> and \<open>unset\<close> in some order on one handle; the sequence
  stops at the first call without a result.\<close>

datatype operation = Set "32 word" | Unset "32 word"

fun apply_operation :: "abitset_expandable \<Rightarrow> operation \<Rightarrow> abitset_expandable option" where
  "apply_operation h (Set ident) = abitset_expandable_set h ident"
| "apply_operation h (Unset ident) = abitset_expandable_unset h ident"

fun apply_operations ::
  "abitset_expandable \<Rightarrow> operation list \<Rightarrow> abitset_expandable option" where
  "apply_operations h [] = Some h"
| "apply_operations h (x # xs) = do {
     h' \<leftarrow> apply_operation h x;
     apply_operations h' xs
   }"

subsection \<open>Well-formed handles and what they store\<close>

text \<open>A handle is well formed when the directory block has \<open>page_count\<close> entries,
  \<open>page_count\<close> is not 0, and every allocated page has \<open>PAGE_ENTRIES\<close> words. The handle of
  \<open>abitset_expandable_init\<close> is well formed, \<open>expand\<close>, \<open>set\<close> and \<open>unset\<close> keep it so, and
  every handle that \<open>abitset_expandable_load\<close> returns is well formed.\<close>

definition page_ok :: "page option \<Rightarrow> bool" where
  "page_ok slot = (case slot of None \<Rightarrow> True | Some p \<Rightarrow> length p = unat PAGE_ENTRIES)"

definition handle_ok :: "abitset_expandable \<Rightarrow> bool" where
  "handle_ok h \<longleftrightarrow>
     length (pages h) = unat (page_count h) \<and> page_count h \<noteq> 0 \<and> list_all page_ok (pages h)"

text \<open>The directory seen as a function of the page index: null beyond its end.\<close>

definition slot_at :: "abitset_expandable \<Rightarrow> nat \<Rightarrow> page option" where
  "slot_at h i = (if i < length (pages h) then pages h ! i else None)"

text \<open>The directory after growing it to \<open>c\<close> entries.\<close>

definition grown :: "abitset_expandable \<Rightarrow> 32 word \<Rightarrow> page option list" where
  "grown h c = pages h @ replicate (unat c - unat (page_count h)) None"

text \<open>The bit that the addressing of \<open>ident\<close> selects, false when the page is absent.\<close>

definition stored :: "abitset_expandable \<Rightarrow> 32 word \<Rightarrow> bool" where
  "stored h ident =
     (case slot_at h (unat (page_of ident)) of
        None \<Rightarrow> False
      | Some p \<Rightarrow> bit (p ! unat (offset_of ident)) (unat (bit_of ident)))"

text \<open>Two ids that the addressing sends to the same bit of the same word of the same page.\<close>

definition same_cell :: "32 word \<Rightarrow> 32 word \<Rightarrow> bool" where
  "same_cell a b \<longleftrightarrow> page_of a = page_of b \<and> offset_of a = offset_of b \<and> bit_of a = bit_of b"

text \<open>Word \<open>off\<close> of page \<open>j\<close>, 0 when the page is absent: what \<open>test\<close> and \<open>repr\<close> read.\<close>

definition word_at :: "abitset_expandable \<Rightarrow> nat \<Rightarrow> nat \<Rightarrow> 64 word" where
  "word_at h j off = (case slot_at h j of None \<Rightarrow> 0 | Some p \<Rightarrow> p ! off)"

text \<open>The entry for page index \<open>b\<close> in the part \<open>ps\<close> of a directory that starts at index
  \<open>i\<close>.\<close>

definition block :: "page option list \<Rightarrow> nat \<Rightarrow> nat \<Rightarrow> page option" where
  "block ps i b = (if i \<le> b \<and> b < i + length ps then ps ! (b - i) else None)"

text \<open>No page is allocated beyond the page of \<open>max_bit\<close>: true of the fresh handle and kept
  by \<open>set\<close> and \<open>unset\<close>, which raise \<open>max_bit\<close> to the id whose page they allocate.\<close>

definition pages_below_max :: "abitset_expandable \<Rightarrow> bool" where
  "pages_below_max h \<longleftrightarrow>
     list_all (\<lambda>i. pages h ! i = None \<or> i \<le> unat (page_of (max_bit h))) [0..<length (pages h)]"

subsection \<open>The addressing the specification asks for\<close>

text \<open>Section 4.1 of the specification, resolution (a): with \<open>W\<close> words per page the page
  index of \<open>n\<close> is \<open>n >> log2(64*W)\<close>. Here \<open>W\<close> is \<open>PAGE_ENTRIES\<close>, and \<open>floorlog 2 k - 1\<close> is
  the binary logarithm of a power of two \<open>k\<close>.\<close>

definition spec_page_shift :: nat where
  "spec_page_shift = floorlog 2 (64 * unat PAGE_ENTRIES) - 1"

definition spec_page_index :: "32 word \<Rightarrow> 32 word" where
  "spec_page_index n = drop_bit spec_page_shift n"

section \<open>Arithmetic of the constants and of the addressing\<close>

text \<open>The values of the macros, and the three address components of an id as natural
  numbers: page \<open>id div 2^18\<close>, word \<open>id div 64 mod 512\<close>, bit \<open>id mod 64\<close>.\<close>

lemma PAGE_SIZE_val: "PAGE_SIZE = 4096"
  by (simp add: PAGE_SIZE_def)

lemma PAGE_ENTRIES_val: "PAGE_ENTRIES = 512"
  by (simp add: PAGE_ENTRIES_def PAGE_SIZE_val drop_bit_eq_div)

lemma INITIAL_PAGES_val: "INITIAL_PAGES = 2048"
  by (simp add: INITIAL_PAGES_def)

lemma length_zalloc_page: "length zalloc_page = 512"
  by (simp add: zalloc_page_def PAGE_SIZE_val)

lemma unat_page_of: "unat (page_of ident) = unat ident div 262144"
  by (simp add: page_of_def drop_bit_eq_div unat_div)

lemma m511: "(511 :: 32 word) = mask 9"
  by (simp add: mask_eq_exp_minus_1)

lemma m63: "(63 :: 32 word) = mask 6"
  by (simp add: mask_eq_exp_minus_1)

lemma unat_offset_of: "unat (offset_of ident) = unat ident div 64 mod 512"
  by (simp add: offset_of_def PAGE_ENTRIES_val m511 flip: take_bit_eq_mask)
     (simp add: drop_bit_eq_div take_bit_eq_mod unat_div unat_mod)

lemma unat_bit_of: "unat (bit_of ident) = unat ident mod 64"
  by (simp add: bit_of_def m63 flip: take_bit_eq_mask)
     (simp add: take_bit_eq_mod unat_mod)

lemma unat32_bound: "unat (w :: 32 word) < 4294967296"
  using unsigned_less[of w, where 'a=nat] by simp

lemma page_of_bound: "unat (page_of ident) < 16384"
  using unat32_bound[of ident] by (simp add: unat_page_of)

lemma offset_of_bound: "unat (offset_of ident) < 512"
  by (simp add: unat_offset_of)

lemma bit_of_bound: "unat (bit_of ident) < 64"
  by (simp add: unat_bit_of)

lemma spec_page_shift_val: "spec_page_shift = 15"
  by (simp add: spec_page_shift_def PAGE_ENTRIES_val compute_floorlog)

section \<open>Growth\<close>

text \<open>The doubling loop returns whenever it starts from a count that is not 0, since a page
  index is below \<open>2^14\<close>. On a well-formed handle \<open>abitset_expandable_expand\<close> therefore
  returns, and \<open>expand_returns\<close> says what it returns.\<close>

lemma grow_page_count_returns:
  fixes required_page new_page_count :: "32 word"
  assumes "new_page_count \<noteq> 0" and "unat required_page < 16384"
  shows "\<exists>r. grow_page_count required_page new_page_count = Some r
            \<and> required_page < r \<and> new_page_count \<le> r"
  using assms
proof (induction "16384 - unat new_page_count" arbitrary: new_page_count rule: less_induct)
  case less
  show ?case
  proof (cases "new_page_count \<le> required_page")
    case False
    then show ?thesis
      by (subst grow_page_count.simps) simp
  next
    case True
    then have le: "unat new_page_count \<le> unat required_page"
      by (simp add: word_le_nat_alt)
    have pos: "0 < unat new_page_count"
      using less.prems(1) by (simp add: unat_gt_0)
    have dbl: "unat (push_bit 1 new_page_count) = 2 * unat new_page_count"
      using le less.prems(2) by (simp add: unat_word_ariths)
    have nz: "push_bit 1 new_page_count \<noteq> 0"
      using dbl pos by (metis mult_is_0 not_less0 unat_0 zero_neq_numeral less_numeral_extra(3))
    have "16384 - unat (push_bit 1 new_page_count) < 16384 - unat new_page_count"
      using dbl pos le less.prems(2) by simp
    from less.hyps[OF this nz less.prems(2)]
    obtain r where r: "grow_page_count required_page (push_bit 1 new_page_count) = Some r"
      "required_page < r" "push_bit 1 new_page_count \<le> r"
      by blast
    have "new_page_count \<le> r"
      using r(3) dbl by (simp add: word_le_nat_alt)
    with r True show ?thesis
      by (subst grow_page_count.simps) simp
  qed
qed

lemma page_ok_simps [simp]:
  "page_ok None" "page_ok (Some p) \<longleftrightarrow> length p = 512"
  by (simp_all add: page_ok_def PAGE_ENTRIES_val)

lemma memcpy_directory:
  assumes "length ps = n" and "n \<le> m"
  shows "memcpy (replicate m None) 0 ps n = Some (ps @ replicate (m - n) None)"
  using assms by (simp add: memcpy_def)

lemma expand_returns:
  assumes ok: "handle_ok h"
  shows "\<exists>h'. abitset_expandable_expand h ident = Some h'
     \<and> handle_ok h'
     \<and> max_bit h' = max (max_bit h) ident
     \<and> page_count h \<le> page_count h'
     \<and> page_of ident < page_count h'
     \<and> pages h' = (if grown h (page_count h') ! unat (page_of ident) = None
                   then (grown h (page_count h'))[unat (page_of ident) := Some zalloc_page]
                   else grown h (page_count h'))
     \<and> size_field h' = (if push_bit 18 (page_of ident + 1) > size_field h
                        then push_bit 18 (page_of ident + 1) else size_field h)"
proof -
  define rp where "rp = page_of ident"
  define h1 where "h1 = (if ident > max_bit h then h\<lparr>max_bit := ident\<rparr> else h)"
  have rp18: "drop_bit 18 ident = rp"
    by (simp add: rp_def page_of_def)
  have h1: "pages h1 = pages h" "page_count h1 = page_count h" "size_field h1 = size_field h"
    "max_bit h1 = max (max_bit h) ident"
    by (auto simp: h1_def max_def)
  from ok have len: "length (pages h) = unat (page_count h)" and nz: "page_count h \<noteq> 0"
    and all: "list_all page_ok (pages h)"
    by (simp_all add: handle_ok_def)
  obtain c where c: "c = (if rp \<ge> page_count h then the (grow_page_count rp (page_count h)) else page_count h)"
    by blast
  have grow: "rp \<ge> page_count h \<Longrightarrow> grow_page_count rp (page_count h) = Some c"
    and c_gt: "rp < c" and c_ge: "page_count h \<le> c"
    using grow_page_count_returns[OF nz page_of_bound[of ident], folded rp_def] c
    by (auto simp: not_le)
  define h2 where "h2 = h1\<lparr>pages := grown h c, page_count := c\<rparr>"
  have step1: "(if rp \<ge> page_count h1 then do {
                 new_page_count \<leftarrow> grow_page_count rp (page_count h1);
                 new_pages \<leftarrow> memcpy (replicate (unat new_page_count) None) 0
                                (pages h1) (unat (page_count h1));
                 Some (h1\<lparr>pages := new_pages, page_count := new_page_count\<rparr>)
               } else Some h1) = Some h2"
  proof (cases "rp \<ge> page_count h")
    case True
    have "unat (page_count h) \<le> unat c"
      using c_ge by (simp add: word_le_nat_alt)
    then show ?thesis
      using True grow[OF True] len
      by (simp add: h1 memcpy_directory h2_def grown_def)
  next
    case False
    then have "c = page_count h"
      using c by simp
    then show ?thesis
      using False by (simp add: h1 h2_def grown_def)
  qed
  have len2: "length (grown h c) = unat c"
    using c_ge len by (simp add: grown_def word_le_nat_alt)
  have in2: "unat rp < length (grown h c)"
    using c_gt len2 by (simp add: word_less_nat_alt)
  have all2: "list_all page_ok (grown h c)"
    using all by (auto simp: grown_def list_all_iff)
  define ps3 where "ps3 = (if grown h c ! unat rp = None
                   then (grown h c)[unat rp := Some zalloc_page] else grown h c)"
  define h3 where "h3 = h2\<lparr>pages := ps3\<rparr>"
  have step2: "load_at (pages h2) (unat rp) = Some (grown h c ! unat rp)"
    using in2 by (simp add: load_at_def h2_def)
  have step3: "(if grown h c ! unat rp = None then do {
                 new_pages \<leftarrow> store_at (pages h2) (unat rp) (Some zalloc_page);
                 Some (h2\<lparr>pages := new_pages\<rparr>)
               } else Some h2) = Some h3"
    using in2 by (simp add: store_at_def h2_def h3_def ps3_def)
  define h4 where "h4 = (if push_bit 18 (rp + 1) > size_field h3
                         then h3\<lparr>size_field := push_bit 18 (rp + 1)\<rparr> else h3)"
  have run: "abitset_expandable_expand h ident = Some h4"
    unfolding abitset_expandable_expand_def Let_def rp18 h1_def[symmetric]
    by (simp only: step1 step2 step3 Option.bind.simps h4_def)
  have f4: "pages h4 = ps3" "page_count h4 = c" "max_bit h4 = max (max_bit h) ident"
    "size_field h3 = size_field h"
    by (simp_all add: h4_def h3_def h2_def h1)
  have all3: "list_all page_ok ps3"
    using all2 by (auto simp: ps3_def list_all_iff length_zalloc_page dest!: set_update_subset_insert[THEN subsetD])
  have len3: "length ps3 = unat c"
    using len2 by (simp add: ps3_def)
  have cnz: "c \<noteq> 0"
    using c_gt by (auto simp: word_less_nat_alt)
  have ok4: "handle_ok h4"
    using all3 len3 cnz by (simp add: handle_ok_def f4)
  have "size_field h4 = (if push_bit 18 (rp + 1) > size_field h
                        then push_bit 18 (rp + 1) else size_field h)"
    by (simp add: h4_def f4)
  with run ok4 f4 c_ge c_gt show ?thesis
    by (simp add: ps3_def rp_def)
qed

lemma expand_size_below_top:
  assumes ok: "handle_ok h" and below: "unat (page_of ident) < 16383"
  shows "\<exists>h'. abitset_expandable_expand h ident = Some h'
           \<and> unat (size_field h') = max (unat (size_field h)) ((unat (page_of ident) + 1) * 2 ^ 18)"
proof -
  have a: "unat (page_of ident + 1) = unat (page_of ident) + 1"
    using below by (simp add: unat_word_ariths)
  have b: "unat (push_bit 18 (page_of ident + 1)) = (unat (page_of ident) + 1) * 2 ^ 18"
    using below by (simp add: push_bit_eq_mult unat_word_ariths a)
  from expand_returns[OF ok, of ident]
  obtain h' where h': "abitset_expandable_expand h ident = Some h'"
    "size_field h' = (if push_bit 18 (page_of ident + 1) > size_field h
                        then push_bit 18 (page_of ident + 1) else size_field h)"
    by blast
  have "unat (size_field h') = max (unat (size_field h)) ((unat (page_of ident) + 1) * 2 ^ 18)"
    unfolding h'(2) b[symmetric] by (simp add: word_less_nat_alt max_def)
  with h'(1) show ?thesis
    by blast
qed

lemma size_ge:
  assumes "ident \<le> max_bit h" and "max_bit h \<noteq> 4294967295"
  shows "unat ident + 1 \<le> unat (abitset_expandable_size h)"
proof -
  have "unat (max_bit h) \<noteq> 4294967295"
    using assms(2) by (simp add: word_unat_eq_iff)
  then have "unat (max_bit h + 1) = unat (max_bit h) + 1"
    using unat32_bound[of "max_bit h"] by (simp add: unat_word_ariths)
  with assms(1) show ?thesis
    by (simp add: abitset_expandable_size_def word_le_nat_alt)
qed

section \<open>Bit operations\<close>

text \<open>On a well-formed handle \<open>test\<close> answers \<open>id < max_bit\<close> and the stored bit of \<open>id\<close>
  (\<open>enabled_eq\<close>); \<open>set\<close> and \<open>unset\<close> return, raise \<open>max_bit\<close>, and change the stored bit of
  exactly the ids that share the cell of \<open>id\<close> (\<open>set_returns\<close>, \<open>unset_returns\<close>).\<close>

lemma handle_ok_slot:
  assumes "handle_ok h" and "slot_at h i = Some p"
  shows "length p = 512" and "i < unat (page_count h)"
proof -
  from assms(2) have i: "i < length (pages h)" and p: "pages h ! i = Some p"
    by (auto simp: slot_at_def split: if_splits)
  then have "Some p \<in> set (pages h)"
    by (metis nth_mem)
  with assms(1) show "length p = 512"
    by (auto simp: handle_ok_def list_all_iff)
  from i assms(1) show "i < unat (page_count h)"
    by (simp add: handle_ok_def)
qed

lemma expand_slot_at:
  assumes "handle_ok h" and "abitset_expandable_expand h ident = Some h'"
  shows "slot_at h' i = (if i = unat (page_of ident) \<and> slot_at h i = None
                         then Some zalloc_page else slot_at h i)"
proof -
  from expand_returns[OF assms(1), of ident] assms(2)
  have ok': "handle_ok h'" and le: "page_count h \<le> page_count h'"
    and lt: "page_of ident < page_count h'"
    and ps: "pages h' = (if grown h (page_count h') ! unat (page_of ident) = None
                   then (grown h (page_count h'))[unat (page_of ident) := Some zalloc_page]
                   else grown h (page_count h'))"
    by auto
  let ?g = "grown h (page_count h')"
  have len: "length (pages h) = unat (page_count h)"
    using assms(1) by (simp add: handle_ok_def)
  have leng: "length ?g = unat (page_count h')"
    using le len by (simp add: grown_def word_le_nat_alt)
  have g: "(if j < length ?g then ?g ! j else None) = slot_at h j" for j
    using len le by (auto simp: grown_def slot_at_def nth_append word_le_nat_alt)
  have rp: "unat (page_of ident) < length ?g"
    using lt leng by (simp add: word_less_nat_alt)
  have grp: "?g ! unat (page_of ident) = slot_at h (unat (page_of ident))"
    using g[of "unat (page_of ident)"] rp by simp
  show ?thesis
  proof (cases "slot_at h (unat (page_of ident)) = None")
    case True
    then have "pages h' = ?g[unat (page_of ident) := Some zalloc_page]"
      using ps grp by simp
    then show ?thesis
      using g[of i] rp True by (auto simp: slot_at_def[of h'] nth_list_update)
  next
    case False
    then have "?g ! unat (page_of ident) \<noteq> None"
      using grp by simp
    then have "pages h' = ?g"
      using ps by auto
    then show ?thesis
      using g[of i] False by (auto simp: slot_at_def[of h'])
  qed
qed

lemma update_word_returns:
  assumes ok: "handle_ok h" and slot: "slot_at h (unat pg) = Some p" and off: "unat off < 512"
  shows "\<exists>h'. update_word h pg off f = Some h'
     \<and> handle_ok h'
     \<and> max_bit h' = max_bit h \<and> page_count h' = page_count h \<and> size_field h' = size_field h
     \<and> (\<forall>i. slot_at h' i = (if i = unat pg then Some (p[unat off := f (p ! unat off)])
                              else slot_at h i))"
proof -
  from slot have i: "unat pg < length (pages h)" and p: "pages h ! unat pg = Some p"
    by (auto simp: slot_at_def split: if_splits)
  have lp: "length p = 512"
    using handle_ok_slot(1)[OF ok slot] .
  define h' where "h' = h\<lparr>pages := (pages h)[unat pg := Some (p[unat off := f (p ! unat off)])]\<rparr>"
  have run: "update_word h pg off f = Some h'"
    using i p lp off by (simp add: update_word_def load_at_def store_at_def h'_def)
  have "list_all page_ok (pages h')"
    using ok lp
    by (auto simp: h'_def handle_ok_def list_all_iff dest!: set_update_subset_insert[THEN subsetD])
  then have ok': "handle_ok h'"
    using ok by (simp add: handle_ok_def h'_def)
  have "slot_at h' j = (if j = unat pg then Some (p[unat off := f (p ! unat off)])
                              else slot_at h j)" for j
    using i by (auto simp: slot_at_def h'_def)
  with run ok' show ?thesis
    by (simp add: h'_def)
qed

lemma bit_set_mask:
  "unat b < 64 \<Longrightarrow> bit (w OR bit_mask b) n \<longleftrightarrow> bit w n \<or> n = unat b"
  by (auto simp: bit_mask_def bit_or_iff bit_exp_iff)

lemma bit_clear_mask:
  "unat b < 64 \<Longrightarrow> bit (w AND NOT (bit_mask b)) n \<longleftrightarrow> bit w n \<and> n \<noteq> unat b"
  by (auto simp: bit_mask_def bit_and_iff bit_not_iff bit_exp_iff dest: bit_imp_le_length)

lemma test_mask:
  "w AND bit_mask b \<noteq> 0 \<longleftrightarrow> bit w (unat b)"
  by (simp add: bit_mask_def bit_iff_and_push_bit_not_eq_0)

lemma enabled_eq:
  assumes ok: "handle_ok h"
  shows "abitset_expandable_enabled h ident = Some (ident < max_bit h \<and> stored h ident)"
proof (cases "ident \<ge> max_bit h")
  case True
  then show ?thesis
    by (auto simp: abitset_expandable_enabled_def)
next
  case lt: False
  show ?thesis
  proof (cases "page_of ident \<ge> page_count h")
    case True
    then have "slot_at h (unat (page_of ident)) = None"
      using ok by (simp add: slot_at_def handle_ok_def word_le_nat_alt)
    with True lt show ?thesis
      by (simp add: abitset_expandable_enabled_def stored_def)
  next
    case False
    then have i: "unat (page_of ident) < length (pages h)"
      using ok by (simp add: handle_ok_def word_le_nat_alt)
    then have s: "load_at (pages h) (unat (page_of ident)) = Some (slot_at h (unat (page_of ident)))"
      by (simp add: load_at_def slot_at_def)
    show ?thesis
    proof (cases "slot_at h (unat (page_of ident))")
      case None
      with lt False s show ?thesis
        by (simp add: abitset_expandable_enabled_def stored_def)
    next
      case (Some p)
      have "length p = 512"
        using handle_ok_slot(1)[OF ok Some] .
      then have "load_at p (unat (offset_of ident)) = Some (p ! unat (offset_of ident))"
        using offset_of_bound[of ident] by (simp add: load_at_def)
      with lt False s Some show ?thesis
        by (auto simp: abitset_expandable_enabled_def stored_def test_mask)
    qed
  qed
qed

lemma zalloc_page_nth: "k < 512 \<Longrightarrow> zalloc_page ! k = 0"
  by (simp add: zalloc_page_def PAGE_SIZE_val)

lemma expand_stored:
  assumes "handle_ok h" and "abitset_expandable_expand h ident = Some h'"
  shows "stored h' j = stored h j"
  using offset_of_bound[of j]
  by (auto simp: stored_def expand_slot_at[OF assms] zalloc_page_nth split: option.splits)

lemma expand_allocates:
  assumes "handle_ok h" and "abitset_expandable_expand h ident = Some h'"
  shows "slot_at h' (unat (page_of ident)) =
           Some (case slot_at h (unat (page_of ident)) of None \<Rightarrow> zalloc_page | Some p \<Rightarrow> p)"
  by (simp add: expand_slot_at[OF assms] split: option.splits)

lemma update_word_stored:
  assumes ok: "handle_ok h" and slot: "slot_at h (unat (page_of ident)) = Some p"
    and run: "update_word h (page_of ident) (offset_of ident) f = Some h'"
  shows "stored h' j =
           (if page_of j = page_of ident \<and> offset_of j = offset_of ident
            then bit (f (p ! unat (offset_of ident))) (unat (bit_of j))
            else stored h j)"
proof -
  from update_word_returns[OF ok slot offset_of_bound[of ident], where f = f] run
  have s: "slot_at h' i = (if i = unat (page_of ident)
             then Some (p[unat (offset_of ident) := f (p ! unat (offset_of ident))])
             else slot_at h i)" for i
    by auto
  have lp: "length p = 512"
    using handle_ok_slot(1)[OF ok slot] .
  show ?thesis
  proof (cases "page_of j = page_of ident")
    case True
    then show ?thesis
      using lp offset_of_bound[of ident] slot
      by (auto simp: stored_def s word_unat_eq_iff[of "offset_of j"])
  next
    case False
    then have "unat (page_of j) \<noteq> unat (page_of ident)"
      by (simp add: word_unat_eq_iff)
    with False show ?thesis
      by (simp add: stored_def s)
  qed
qed

lemma mutate_returns:
  fixes h :: abitset_expandable and ident :: "32 word" and f :: "64 word \<Rightarrow> 64 word"
  assumes ok: "handle_ok h"
  defines "pg \<equiv> (case slot_at h (unat (page_of ident)) of None \<Rightarrow> zalloc_page | Some q \<Rightarrow> q)"
  shows "\<exists>h1 h'. abitset_expandable_expand h ident = Some h1
     \<and> update_word h1 (page_of ident) (offset_of ident) f = Some h'
     \<and> handle_ok h'
     \<and> max_bit h' = max (max_bit h) ident
     \<and> page_count h' = page_count h1
     \<and> size_field h' = size_field h1
     \<and> page_count h \<le> page_count h'
     \<and> page_of ident < page_count h'
     \<and> (\<forall>i. slot_at h' i =
            (if i = unat (page_of ident)
             then Some (pg[unat (offset_of ident) := f (pg ! unat (offset_of ident))])
             else slot_at h i))"
proof -
  from expand_returns[OF ok, of ident]
  obtain h1 where h1: "abitset_expandable_expand h ident = Some h1" "handle_ok h1"
    "max_bit h1 = max (max_bit h) ident" "page_count h \<le> page_count h1"
    "page_of ident < page_count h1"
    by blast
  have p: "slot_at h1 (unat (page_of ident)) = Some pg"
    using expand_allocates[OF ok h1(1)] by (simp add: pg_def)
  from update_word_returns[OF h1(2) p offset_of_bound[of ident], where f = f]
  obtain h' where h': "update_word h1 (page_of ident) (offset_of ident) f = Some h'"
    "handle_ok h'" "max_bit h' = max_bit h1" "page_count h' = page_count h1"
    "size_field h' = size_field h1"
    and s: "\<And>i. slot_at h' i =
            (if i = unat (page_of ident)
             then Some (pg[unat (offset_of ident) := f (pg ! unat (offset_of ident))])
             else slot_at h1 i)"
    by blast
  have "slot_at h' i =
            (if i = unat (page_of ident)
             then Some (pg[unat (offset_of ident) := f (pg ! unat (offset_of ident))])
             else slot_at h i)" for i
    by (simp add: s expand_slot_at[OF ok h1(1)])
  with h1 h' show ?thesis
    by simp
qed

lemma mutate_stored:
  assumes ok: "handle_ok h"
    and h1: "abitset_expandable_expand h ident = Some h1"
    and h': "update_word h1 (page_of ident) (offset_of ident) f = Some h'"
  shows "stored h' j =
           (if page_of j = page_of ident \<and> offset_of j = offset_of ident
            then bit (f (case slot_at h (unat (page_of ident)) of
                           None \<Rightarrow> 0 | Some q \<Rightarrow> q ! unat (offset_of ident)))
                     (unat (bit_of j))
            else stored h j)"
proof -
  have ok1: "handle_ok h1"
    using expand_returns[OF ok, of ident] h1 by auto
  have "stored h' j =
           (if page_of j = page_of ident \<and> offset_of j = offset_of ident
            then bit (f ((case slot_at h (unat (page_of ident)) of
                            None \<Rightarrow> zalloc_page | Some q \<Rightarrow> q) ! unat (offset_of ident)))
                     (unat (bit_of j))
            else stored h1 j)"
    by (rule update_word_stored[OF ok1 expand_allocates[OF ok h1] h'])
  then show ?thesis
    using offset_of_bound[of ident]
    by (simp add: expand_stored[OF ok h1] zalloc_page_nth split: option.splits)
qed

lemma stored_word_at:
  "stored h ident \<longleftrightarrow>
     bit (word_at h (unat (page_of ident)) (unat (offset_of ident))) (unat (bit_of ident))"
  by (simp add: stored_def word_at_def split: option.splits)

lemma set_returns:
  assumes ok: "handle_ok h"
  shows "\<exists>h'. abitset_expandable_set h ident = Some h'
     \<and> handle_ok h'
     \<and> max_bit h' = max (max_bit h) ident
     \<and> page_count h \<le> page_count h'
     \<and> (\<forall>j. stored h' j \<longleftrightarrow> stored h j \<or> same_cell j ident)"
proof -
  from mutate_returns[OF ok, of ident "\<lambda>w. w OR bit_mask (bit_of ident)"]
  obtain h1 h' where h1: "abitset_expandable_expand h ident = Some h1"
    and h': "update_word h1 (page_of ident) (offset_of ident)
               (\<lambda>w. w OR bit_mask (bit_of ident)) = Some h'"
    and rest: "handle_ok h'" "max_bit h' = max (max_bit h) ident" "page_count h \<le> page_count h'"
    by blast
  have run: "abitset_expandable_set h ident = Some h'"
    by (simp add: abitset_expandable_set_def h1 h')
  have "stored h' j \<longleftrightarrow> stored h j \<or> same_cell j ident" for j
  proof (cases "page_of j = page_of ident \<and> offset_of j = offset_of ident")
    case True
    then have "stored h j = bit (case slot_at h (unat (page_of ident)) of
                 None \<Rightarrow> 0 | Some q \<Rightarrow> q ! unat (offset_of ident)) (unat (bit_of j))"
      by (simp add: stored_word_at word_at_def split: option.splits)
    moreover have "same_cell j ident \<longleftrightarrow> unat (bit_of j) = unat (bit_of ident)"
      using True by (simp add: same_cell_def word_unat_eq_iff)
    ultimately show ?thesis
      using True by (simp add: mutate_stored[OF ok h1 h'] bit_set_mask[OF bit_of_bound])
  next
    case False
    then show ?thesis
      by (auto simp: mutate_stored[OF ok h1 h'] same_cell_def)
  qed
  with run rest show ?thesis
    by simp
qed

lemma unset_returns:
  assumes ok: "handle_ok h"
  shows "\<exists>h'. abitset_expandable_unset h ident = Some h'
     \<and> handle_ok h'
     \<and> max_bit h' = max (max_bit h) ident
     \<and> page_count h \<le> page_count h'
     \<and> (\<forall>j. stored h' j \<longleftrightarrow> stored h j \<and> \<not> same_cell j ident)"
proof -
  from mutate_returns[OF ok, of ident "\<lambda>w. w AND NOT (bit_mask (bit_of ident))"]
  obtain h1 h' where h1: "abitset_expandable_expand h ident = Some h1"
    and h': "update_word h1 (page_of ident) (offset_of ident)
               (\<lambda>w. w AND NOT (bit_mask (bit_of ident))) = Some h'"
    and rest: "handle_ok h'" "max_bit h' = max (max_bit h) ident" "page_count h \<le> page_count h'"
    by blast
  have run: "abitset_expandable_unset h ident = Some h'"
    by (simp add: abitset_expandable_unset_def h1 h')
  have "stored h' j \<longleftrightarrow> stored h j \<and> \<not> same_cell j ident" for j
  proof (cases "page_of j = page_of ident \<and> offset_of j = offset_of ident")
    case True
    then have "stored h j = bit (case slot_at h (unat (page_of ident)) of
                 None \<Rightarrow> 0 | Some q \<Rightarrow> q ! unat (offset_of ident)) (unat (bit_of j))"
      by (simp add: stored_word_at word_at_def split: option.splits)
    moreover have "same_cell j ident \<longleftrightarrow> unat (bit_of j) = unat (bit_of ident)"
      using True by (simp add: same_cell_def word_unat_eq_iff)
    ultimately show ?thesis
      using True by (simp add: mutate_stored[OF ok h1 h'] bit_clear_mask[OF bit_of_bound])
  next
    case False
    then show ?thesis
      by (auto simp: mutate_stored[OF ok h1 h'] same_cell_def)
  qed
  with run rest show ?thesis
    by simp
qed

lemma init_ok: "handle_ok abitset_expandable_init"
  by (simp add: handle_ok_def abitset_expandable_init_def INITIAL_PAGES_val list_all_iff)

lemma init_stored: "\<not> stored abitset_expandable_init j"
  by (simp add: stored_def slot_at_def abitset_expandable_init_def)

lemma set_ok: "handle_ok h \<Longrightarrow> handle_ok (the (abitset_expandable_set h ident))"
  using set_returns[of h ident] by auto

lemma unset_ok: "handle_ok h \<Longrightarrow> handle_ok (the (abitset_expandable_unset h ident))"
  using unset_returns[of h ident] by auto

lemma same_cell_refl [simp]: "same_cell a a"
  by (simp add: same_cell_def)

lemma set_then_test:
  assumes "handle_ok h"
  shows "\<exists>h'. abitset_expandable_set h ident = Some h'
           \<and> abitset_expandable_enabled h' ident = Some (ident < max_bit h)"
proof -
  from set_returns[OF assms, of ident]
  obtain h' where h': "abitset_expandable_set h ident = Some h'" "handle_ok h'"
    "max_bit h' = max (max_bit h) ident" "stored h' ident"
    by auto
  then show ?thesis
    by (auto simp: enabled_eq[OF h'(2)] max_def)
qed

lemma unset_then_test:
  assumes "handle_ok h"
  shows "\<exists>h'. abitset_expandable_unset h ident = Some h'
           \<and> abitset_expandable_enabled h' ident = Some False"
proof -
  from unset_returns[OF assms, of ident]
  obtain h' where h': "abitset_expandable_unset h ident = Some h'" "handle_ok h'"
    "\<not> stored h' ident"
    by auto
  then show ?thesis
    by (auto simp: enabled_eq[OF h'(2)])
qed

lemma set_then_other:
  assumes "handle_ok h"
  shows "\<exists>h'. abitset_expandable_set h b = Some h'
           \<and> (\<forall>a. abitset_expandable_enabled h' a =
                  Some (a < max (max_bit h) b \<and> (stored h a \<or> same_cell a b)))"
proof -
  from set_returns[OF assms, of b]
  obtain h' where h': "abitset_expandable_set h b = Some h'" "handle_ok h'"
    "max_bit h' = max (max_bit h) b" "\<And>j. stored h' j \<longleftrightarrow> stored h j \<or> same_cell j b"
    by auto
  then show ?thesis
    by (simp add: enabled_eq[OF h'(2)])
qed

section \<open>Call sequences\<close>

lemma apply_operation_returns:
  assumes "handle_ok h"
  shows "\<exists>h'. apply_operation h x = Some h' \<and> handle_ok h' \<and> max_bit h \<le> max_bit h'"
proof (cases x)
  case (Set ident)
  with set_returns[OF assms, of ident] show ?thesis
    by auto
next
  case (Unset ident)
  with unset_returns[OF assms, of ident] show ?thesis
    by auto
qed

lemma apply_operations_returns:
  assumes "handle_ok h"
  shows "\<exists>h'. apply_operations h xs = Some h' \<and> handle_ok h' \<and> max_bit h \<le> max_bit h'"
  using assms
proof (induction xs arbitrary: h)
  case Nil
  then show ?case by simp
next
  case (Cons x xs)
  from apply_operation_returns[OF Cons.prems, of x]
  obtain h1 where h1: "apply_operation h x = Some h1" "handle_ok h1" "max_bit h \<le> max_bit h1"
    by blast
  from Cons.IH[OF h1(2)]
  obtain h' where "apply_operations h1 xs = Some h'" "handle_ok h'" "max_bit h1 \<le> max_bit h'"
    by blast
  with h1 show ?case
    by auto
qed

section \<open>Serialization\<close>

text \<open>What \<open>abitset_expandable_repr\<close> writes and what \<open>abitset_expandable_load\<close> builds from
  it, as long as \<open>max_bit + 1\<close> and \<open>size + 63\<close> do not wrap around: word \<open>k\<close> of the dense
  array is word \<open>k mod 512\<close> of page \<open>k div 512\<close>, and the loaded handle has these words back.
  For handles built by \<open>set\<close> and \<open>unset\<close> the round trip then preserves every answer of
  \<open>test\<close> (\<open>round_trip_below_wrap\<close>).\<close>

lemma unat_shift9: "unat (drop_bit 9 (i :: 32 word)) = unat i div 512"
  by (simp add: drop_bit_eq_div unat_div)

lemma unat_and511: "unat ((i :: 32 word) AND (PAGE_ENTRIES - 1)) = unat i mod 512"
  by (simp add: PAGE_ENTRIES_val m511 flip: take_bit_eq_mask)
     (simp add: take_bit_eq_mod unat_mod)

lemma allocate_returns:
  assumes ok: "handle_ok h" and j: "j < unat (page_count h)"
  shows "\<exists>h1 p. load_at (pages h) j = Some (slot_at h j)
     \<and> (if slot_at h j = None then do {
             new_pages \<leftarrow> store_at (pages h) j (Some zalloc_page);
             Some (h\<lparr>pages := new_pages\<rparr>)
           } else Some h) = Some h1
     \<and> handle_ok h1 \<and> page_count h1 = page_count h \<and> max_bit h1 = max_bit h
     \<and> slot_at h1 j = Some p
     \<and> (\<forall>i off. off < 512 \<longrightarrow> word_at h1 i off = word_at h i off)"
proof -
  have len: "length (pages h) = unat (page_count h)"
    using ok by (simp add: handle_ok_def)
  have ld: "load_at (pages h) j = Some (slot_at h j)"
    using j len by (simp add: load_at_def slot_at_def)
  show ?thesis
  proof (cases "slot_at h j")
    case (Some p)
    with ld show ?thesis
      using ok by simp
  next
    case None
    define h1 where "h1 = h\<lparr>pages := (pages h)[j := Some zalloc_page]\<rparr>"
    have "list_all page_ok (pages h1)"
      using ok
      by (auto simp: h1_def handle_ok_def list_all_iff length_zalloc_page
          dest!: set_update_subset_insert[THEN subsetD])
    then have ok1: "handle_ok h1"
      using ok by (simp add: handle_ok_def h1_def)
    have s: "slot_at h1 i = (if i = j then Some zalloc_page else slot_at h i)" for i
      using j len by (auto simp: slot_at_def h1_def)
    have "word_at h1 i off = word_at h i off" if "off < 512" for i off
      using that None by (simp add: word_at_def s zalloc_page_nth)
    with ld None ok1 s show ?thesis
      using j len by (simp add: store_at_def h1_def)
  qed
qed

lemma update_word_at:
  assumes ok: "handle_ok h" and slot: "slot_at h (unat pg) = Some p" and off: "unat off < 512"
  shows "\<exists>h'. update_word h pg off f = Some h'
     \<and> handle_ok h' \<and> max_bit h' = max_bit h \<and> page_count h' = page_count h
     \<and> (\<forall>i k. k < 512 \<longrightarrow> word_at h' i k =
            (if i = unat pg \<and> k = unat off then f (p ! unat off) else word_at h i k))"
proof -
  from update_word_returns[OF ok slot off, where f = f]
  obtain h' where h': "update_word h pg off f = Some h'" "handle_ok h'"
    "max_bit h' = max_bit h" "page_count h' = page_count h"
    and s: "\<And>i. slot_at h' i = (if i = unat pg then Some (p[unat off := f (p ! unat off)])
                              else slot_at h i)"
    by blast
  have lp: "length p = 512"
    using handle_ok_slot(1)[OF ok slot] .
  have "word_at h' i k = (if i = unat pg \<and> k = unat off then f (p ! unat off) else word_at h i k)"
    if "k < 512" for i k
    using that lp off slot by (simp add: word_at_def s nth_list_update)
  with h' show ?thesis
    by simp
qed

lemma cell_index:
  assumes "off < 512"
  shows "512 * j + off = (n :: nat) \<longleftrightarrow> j = n div 512 \<and> off = n mod 512"
proof
  assume "512 * j + off = n"
  then have n: "n = off + j * 512"
    by simp
  show "j = n div 512 \<and> off = n mod 512"
    unfolding n using assms by simp
next
  assume "j = n div 512 \<and> off = n mod 512"
  then show "512 * j + off = n"
    by simp
qed

lemma shift_cond:
  fixes x :: "'a :: zero"
  assumes "K \<noteq> I"
  shows "(if Suc I \<le> K \<and> K < Suc I + length vs \<and> vs ! (K - Suc I) \<noteq> 0
          then vs ! (K - Suc I) else x) =
         (if I \<le> K \<and> K < I + length (v # vs) \<and> (v # vs) ! (K - I) \<noteq> 0
          then (v # vs) ! (K - I) else x)"
proof (cases "K < I")
  case True
  then show ?thesis by simp
next
  case False
  with assms have "I < K"
    by simp
  then obtain d where d: "K = I + Suc d"
    by (auto dest: less_imp_Suc_add)
  show ?thesis
    unfolding d by simp
qed

lemma load_words_returns:
  assumes "handle_ok h" and "unat i + length vs < 2 ^ 32"
    and "\<forall>k < length vs. vs ! k \<noteq> 0 \<longrightarrow> (unat i + k) div 512 < unat (page_count h)"
  shows "\<exists>h'. load_words i vs h = Some h'
     \<and> handle_ok h' \<and> page_count h' = page_count h \<and> max_bit h' = max_bit h
     \<and> (\<forall>j off. off < 512 \<longrightarrow> word_at h' j off =
            (if unat i \<le> 512 * j + off \<and> 512 * j + off < unat i + length vs
                \<and> vs ! (512 * j + off - unat i) \<noteq> 0
             then vs ! (512 * j + off - unat i) else word_at h j off))"
  using assms
proof (induction vs arbitrary: i h)
  case Nil
  then show ?case by auto
next
  case (Cons v vs)
  have next_i: "unat (i + 1) = Suc (unat i)"
    using Cons.prems(2) by (simp add: unat_word_ariths)
  have bound': "unat (i + 1) + length vs < 2 ^ 32"
    using Cons.prems(2) next_i by simp
  have rest: "\<forall>k < length vs. vs ! k \<noteq> 0 \<longrightarrow>
                (unat (i + 1) + k) div 512 < unat (page_count h)"
  proof (intro allI impI)
    fix k assume "k < length vs" "vs ! k \<noteq> 0"
    then show "(unat (i + 1) + k) div 512 < unat (page_count h)"
      using Cons.prems(3)[rule_format, of "Suc k"] next_i by simp
  qed
  show ?case
  proof (cases "v = 0")
    case True
    from Cons.IH[OF Cons.prems(1) bound' rest]
    obtain h' where h': "load_words (i + 1) vs h = Some h'" "handle_ok h'"
      "page_count h' = page_count h" "max_bit h' = max_bit h"
      and w: "\<And>j off. off < 512 \<Longrightarrow> word_at h' j off =
            (if unat (i + 1) \<le> 512 * j + off \<and> 512 * j + off < unat (i + 1) + length vs
                \<and> vs ! (512 * j + off - unat (i + 1)) \<noteq> 0
             then vs ! (512 * j + off - unat (i + 1)) else word_at h j off)"
      by blast
    have "word_at h' j off =
            (if unat i \<le> 512 * j + off \<and> 512 * j + off < unat i + length (v # vs)
                \<and> (v # vs) ! (512 * j + off - unat i) \<noteq> 0
             then (v # vs) ! (512 * j + off - unat i) else word_at h j off)"
      if "off < 512" for j off
    proof (cases "512 * j + off = unat i")
      case eq: True
      have "word_at h' j off = word_at h j off"
        unfolding w[OF that] next_i eq by simp
      moreover have "(v # vs) ! (unat i - unat i) = 0"
        using True by simp
      ultimately show ?thesis
        unfolding eq by simp
    next
      case False
      show ?thesis
        unfolding w[OF that] next_i by (rule shift_cond[OF False])
    qed
    with h' True show ?thesis
      by simp
  next
    case False
    let ?pg = "drop_bit 9 i" and ?off = "i AND (PAGE_ENTRIES - 1)"
    have pg: "unat ?pg = unat i div 512" and off: "unat ?off = unat i mod 512"
      by (rule unat_shift9, rule unat_and511)
    have j: "unat ?pg < unat (page_count h)"
      using Cons.prems(3)[rule_format, of 0] False by (simp add: pg)
    from allocate_returns[OF Cons.prems(1) j]
    obtain h1 p where ld: "load_at (pages h) (unat ?pg) = Some (slot_at h (unat ?pg))"
      and al: "(if slot_at h (unat ?pg) = None then do {
             new_pages \<leftarrow> store_at (pages h) (unat ?pg) (Some zalloc_page);
             Some (h\<lparr>pages := new_pages\<rparr>)
           } else Some h) = Some h1"
      and h1: "handle_ok h1" "page_count h1 = page_count h" "max_bit h1 = max_bit h"
        "slot_at h1 (unat ?pg) = Some p"
      and w1: "\<And>j off. off < 512 \<Longrightarrow> word_at h1 j off = word_at h j off"
      by blast
    have off512: "unat ?off < 512"
      by (simp add: off)
    from update_word_at[OF h1(1) h1(4) off512, where f = "\<lambda>w. v"]
    obtain h2 where h2: "update_word h1 ?pg ?off (\<lambda>w. v) = Some h2" "handle_ok h2"
      "max_bit h2 = max_bit h1" "page_count h2 = page_count h1"
      and w2: "\<And>j k. k < 512 \<Longrightarrow> word_at h2 j k =
            (if j = unat ?pg \<and> k = unat ?off then v else word_at h1 j k)"
      by blast
    have rest2: "\<forall>k < length vs. vs ! k \<noteq> 0 \<longrightarrow>
                (unat (i + 1) + k) div 512 < unat (page_count h2)"
      using rest by (simp add: h2(4) h1(2))
    from Cons.IH[OF h2(2) bound' rest2]
    obtain h' where h': "load_words (i + 1) vs h2 = Some h'" "handle_ok h'"
      "page_count h' = page_count h2" "max_bit h' = max_bit h2"
      and w: "\<And>j off. off < 512 \<Longrightarrow> word_at h' j off =
            (if unat (i + 1) \<le> 512 * j + off \<and> 512 * j + off < unat (i + 1) + length vs
                \<and> vs ! (512 * j + off - unat (i + 1)) \<noteq> 0
             then vs ! (512 * j + off - unat (i + 1)) else word_at h2 j off)"
      by blast
    have run: "load_words i (v # vs) h = Some h'"
      using False by (simp add: Let_def ld al h2(1) h')
    have "word_at h' j off =
            (if unat i \<le> 512 * j + off \<and> 512 * j + off < unat i + length (v # vs)
                \<and> (v # vs) ! (512 * j + off - unat i) \<noteq> 0
             then (v # vs) ! (512 * j + off - unat i) else word_at h j off)"
      if "off < 512" for j off
    proof (cases "512 * j + off = unat i")
      case eq: True
      then have "j = unat ?pg \<and> off = unat ?off"
        using cell_index[OF that, of j "unat i"] by (simp add: pg off)
      then have "word_at h2 j off = v"
        using w2[OF that, of j] by simp
      then have "word_at h' j off = v"
        unfolding w[OF that] next_i eq by simp
      moreover have "(v # vs) ! (unat i - unat i) = v"
        by simp
      ultimately show ?thesis
        unfolding eq using False by simp
    next
      case ne: False
      then have "\<not> (j = unat ?pg \<and> off = unat ?off)"
        using cell_index[OF that, of j "unat i"] by (simp add: pg off)
      then have "word_at h2 j off = word_at h j off"
        using w2[OF that, of j] w1[OF that, of j] by auto
      then show ?thesis
        unfolding w[OF that] next_i by (simp only: shift_cond[OF ne])
    qed
    with run h' h2 h1 show ?thesis
      by simp
  qed
qed

lemma block_Nil [simp]: "block [] i b = None"
  by (auto simp: block_def)

lemma block_Cons: "block (x # ps) i b = (if b = i then x else block ps (Suc i) b)"
proof (cases "b \<le> i")
  case True
  then show ?thesis
    by (auto simp: block_def)
next
  case False
  then obtain d where d: "b = i + Suc d"
    by (auto simp: not_le dest: less_imp_Suc_add)
  show ?thesis
    unfolding d by (simp add: block_def)
qed

lemma memcpy_nth:
  assumes "off + n \<le> length dst" and "n \<le> length src"
  shows "\<exists>d'. memcpy dst off src n = Some d' \<and> length d' = length dst
           \<and> (\<forall>k < length dst. d' ! k =
                  (if off \<le> k \<and> k < off + n then src ! (k - off) else dst ! k))"
proof -
  let ?d = "take off dst @ take n src @ drop (off + n) dst"
  have run: "memcpy dst off src n = Some ?d"
    using assms by (simp add: memcpy_def)
  have len: "length ?d = length dst"
    using assms by simp
  have "?d ! k = (if off \<le> k \<and> k < off + n then src ! (k - off) else dst ! k)"
    if "k < length dst" for k
  proof -
    consider "k < off" | "off \<le> k" "k < off + n" | "off + n \<le> k"
      by linarith
    then show ?thesis
    proof cases
      case 1
      then show ?thesis
        using assms by (simp add: nth_append)
    next
      case 2
      then have "k - off < n"
        by linarith
      with 2 show ?thesis
        using assms by (simp add: nth_append)
    next
      case 3
      then have "\<not> k - off < n" "\<not> k < off"
        by linarith+
      with 3 show ?thesis
        using assms that by (simp add: nth_append)
    qed
  qed
  with run len show ?thesis
    by blast
qed

lemma repr_copy_words:
  fixes i size' :: "32 word"
  assumes i: "unat i < 16384" and lt: "unat i * 32768 < unat size'"
  shows "unat (push_bit 9 i) = 512 * unat i"
    and "unat (if size' - push_bit 6 (push_bit 9 i) \<ge> push_bit 6 PAGE_ENTRIES then PAGE_SIZE
               else push_bit 3 (drop_bit 6 (size' - push_bit 6 (push_bit 9 i) + 63))) div 8
         = min 512 ((unat size' + 63) div 64 - 512 * unat i)"
proof -
  show s9: "unat (push_bit 9 i) = 512 * unat i"
    using i by (simp add: push_bit_eq_mult unat_word_ariths)
  have s15: "unat (push_bit 15 i) = 32768 * unat i"
    using i by (simp add: push_bit_eq_mult unat_word_ariths)
  define br where "br = size' - push_bit 6 (push_bit 9 i)"
  have "push_bit 6 (push_bit 9 i) \<le> size'"
    using lt s15 by (simp add: word_le_nat_alt)
  then have br: "unat br = unat size' - 32768 * unat i"
    by (simp add: br_def unat_sub s15)
  have rest: "(unat size' + 63) div 64 - 512 * unat i = (unat br + 63) div 64"
    using lt br by simp
  show "unat (if size' - push_bit 6 (push_bit 9 i) \<ge> push_bit 6 PAGE_ENTRIES then PAGE_SIZE
               else push_bit 3 (drop_bit 6 (size' - push_bit 6 (push_bit 9 i) + 63))) div 8
         = min 512 ((unat size' + 63) div 64 - 512 * unat i)"
    unfolding rest br_def[symmetric]
  proof (cases "br \<ge> push_bit 6 PAGE_ENTRIES")
    case True
    then have "32768 \<le> unat br"
      by (simp add: PAGE_ENTRIES_val word_le_nat_alt)
    with True show "unat (if br \<ge> push_bit 6 PAGE_ENTRIES then PAGE_SIZE
               else push_bit 3 (drop_bit 6 (br + 63))) div 8 = min 512 ((unat br + 63) div 64)"
      by (simp add: PAGE_SIZE_val)
  next
    case False
    then have small: "unat br < 32768"
      by (simp add: PAGE_ENTRIES_val word_le_nat_alt)
    then have a: "unat (br + 63) = unat br + 63"
      by (simp add: unat_word_ariths)
    have b: "unat (drop_bit 6 (br + 63)) = (unat br + 63) div 64"
      by (simp add: drop_bit_eq_div unat_div a)
    have c: "unat (push_bit 3 (drop_bit 6 (br + 63))) = 8 * ((unat br + 63) div 64)"
      using small by (simp add: push_bit_eq_mult unat_word_ariths b)
    from False small show "unat (if br \<ge> push_bit 6 PAGE_ENTRIES then PAGE_SIZE
               else push_bit 3 (drop_bit 6 (br + 63))) div 8 = min 512 ((unat br + 63) div 64)"
      by (simp add: c)
  qed
qed

lemma block_before: "b < i \<Longrightarrow> block ps i b = None"
  by (simp add: block_def)

lemma repr_pages_returns:
  fixes size' i :: "32 word"
  assumes len: "length r = (unat size' + 63) div 64"
    and cnt: "unat i + length ps < 2 ^ 32"
    and pg: "\<forall>k p. k < length ps \<and> ps ! k = Some p \<longrightarrow>
               length p = 512 \<and> unat i + k < 16384 \<and> (unat i + k) * 32768 < unat size'"
  shows "\<exists>r'. repr_pages size' i ps r = Some r' \<and> length r' = length r
     \<and> (\<forall>k < length r. r' ! k =
            (case block ps (unat i) (k div 512) of
               None \<Rightarrow> r ! k
             | Some p \<Rightarrow> p ! (k mod 512)))"
  using assms
proof (induction ps arbitrary: i r)
  case Nil
  then show ?case by simp
next
  case (Cons x ps)
  have next_i: "unat (i + 1) = Suc (unat i)"
    using Cons.prems(2) by (simp add: unat_word_ariths)
  have cnt': "unat (i + 1) + length ps < 2 ^ 32"
    using Cons.prems(2) next_i by simp
  have pg': "\<forall>k p. k < length ps \<and> ps ! k = Some p \<longrightarrow>
               length p = 512 \<and> unat (i + 1) + k < 16384 \<and> (unat (i + 1) + k) * 32768 < unat size'"
  proof (intro allI impI)
    fix k p assume "k < length ps \<and> ps ! k = Some p"
    then show "length p = 512 \<and> unat (i + 1) + k < 16384 \<and> (unat (i + 1) + k) * 32768 < unat size'"
      using Cons.prems(3)[rule_format, of "Suc k" p] next_i by simp
  qed
  show ?case
  proof (cases x)
    case None
    from Cons.IH[OF Cons.prems(1) cnt' pg']
    obtain r' where r': "repr_pages size' (i + 1) ps r = Some r'" "length r' = length r"
      and v: "\<And>k. k < length r \<Longrightarrow> r' ! k =
            (case block ps (unat (i + 1)) (k div 512) of
               None \<Rightarrow> r ! k | Some p \<Rightarrow> p ! (k mod 512))"
      by blast
    have "r' ! k = (case block (x # ps) (unat i) (k div 512) of
               None \<Rightarrow> r ! k | Some p \<Rightarrow> p ! (k mod 512))" if "k < length r" for k
      unfolding v[OF that] next_i None block_Cons
      by (simp add: block_before)
    with r' None show ?thesis
      by simp
  next
    case (Some p)
    let ?I = "unat i" and ?N = "(unat size' + 63) div 64"
    from Cons.prems(3)[rule_format, of 0 p] Some
    have lp: "length p = 512" and I: "?I < 16384" and lt: "?I * 32768 < unat size'"
      by simp_all
    let ?n = "min 512 (?N - 512 * ?I)"
    have fit: "512 * ?I \<le> ?N"
      using lt by simp
    then have dst: "512 * ?I + ?n \<le> length r"
      using Cons.prems(1) by simp
    have src: "?n \<le> length p"
      using lp by simp
    from memcpy_nth[OF dst src]
    obtain r1 where r1: "memcpy r (512 * ?I) p ?n = Some r1" "length r1 = length r"
      and v1: "\<And>k. k < length r \<Longrightarrow> r1 ! k =
            (if 512 * ?I \<le> k \<and> k < 512 * ?I + ?n then p ! (k - 512 * ?I) else r ! k)"
      by blast
    have len1: "length r1 = ?N"
      using r1(2) Cons.prems(1) by simp
    from Cons.IH[OF len1 cnt' pg']
    obtain r' where r': "repr_pages size' (i + 1) ps r1 = Some r'" "length r' = length r1"
      and v: "\<And>k. k < length r1 \<Longrightarrow> r' ! k =
            (case block ps (unat (i + 1)) (k div 512) of
               None \<Rightarrow> r1 ! k | Some q \<Rightarrow> q ! (k mod 512))"
      by blast
    have run: "repr_pages size' i (x # ps) r = Some r'"
      unfolding Some repr_pages.simps Let_def repr_copy_words[OF I lt]
      by (simp add: r1(1) r'(1))
    have "r' ! k = (case block (x # ps) (unat i) (k div 512) of
               None \<Rightarrow> r ! k | Some q \<Rightarrow> q ! (k mod 512))" if k: "k < length r" for k
    proof (cases "k div 512 = ?I")
      case True
      then have kd: "k = 512 * ?I + k mod 512"
        using mult_div_mod_eq[of 512 k] by simp
      have mb: "k mod 512 < 512"
        by simp
      from kd mb have range: "512 * ?I \<le> k" "k < 512 * ?I + 512"
        and md: "k - 512 * ?I = k mod 512"
        by linarith+
      have "k < 512 * ?I + ?n"
        using range k Cons.prems(1) by simp
      with range have "r1 ! k = p ! (k mod 512)"
        by (simp add: v1[OF k] md)
      then show ?thesis
        using True k r1(2) by (simp add: v next_i Some block_Cons block_before split: option.splits)
    next
      case False
      have "k div 512 = ?I" if "512 * ?I \<le> k" "k < 512 * ?I + ?n"
        using that by (intro div_nat_eqI) simp_all
      with False have nr: "\<not> (512 * ?I \<le> k \<and> k < 512 * ?I + ?n)"
        by blast
      have "r1 ! k = r ! k"
        unfolding v1[OF k] using nr by (rule if_not_P)
      then show ?thesis
        using False k r1(2) by (simp add: v next_i Some block_Cons split: option.splits)
    qed
    with run r' r1 show ?thesis
      by simp
  qed
qed

lemma pages_below_max_iff:
  "pages_below_max h \<longleftrightarrow> (\<forall>i p. slot_at h i = Some p \<longrightarrow> i \<le> unat (page_of (max_bit h)))"
proof
  assume a: "pages_below_max h"
  show "\<forall>i p. slot_at h i = Some p \<longrightarrow> i \<le> unat (page_of (max_bit h))"
  proof (intro allI impI)
    fix i p assume "slot_at h i = Some p"
    then have i: "i < length (pages h)" and p: "pages h ! i = Some p"
      by (auto simp: slot_at_def split: if_splits)
    from a i have "pages h ! i = None \<or> i \<le> unat (page_of (max_bit h))"
      by (simp add: pages_below_max_def list_all_iff)
    with p show "i \<le> unat (page_of (max_bit h))"
      by simp
  qed
next
  assume b: "\<forall>i p. slot_at h i = Some p \<longrightarrow> i \<le> unat (page_of (max_bit h))"
  have "pages h ! i = None \<or> i \<le> unat (page_of (max_bit h))" if "i < length (pages h)" for i
  proof (cases "pages h ! i")
    case None
    then show ?thesis by simp
  next
    case (Some p)
    with that have "slot_at h i = Some p"
      by (simp add: slot_at_def)
    with b show ?thesis by blast
  qed
  then show "pages_below_max h"
    by (simp add: pages_below_max_def list_all_iff)
qed

lemma init_below_max: "pages_below_max abitset_expandable_init"
  by (simp add: pages_below_max_iff slot_at_def abitset_expandable_init_def)

lemma page_of_mono: "a \<le> b \<Longrightarrow> unat (page_of a) \<le> unat (page_of b)"
  by (simp add: unat_page_of word_le_nat_alt div_le_mono)

lemma mutate_below_max:
  assumes ok: "handle_ok h" and below: "pages_below_max h"
    and h1: "abitset_expandable_expand h ident = Some h1"
    and h': "update_word h1 (page_of ident) (offset_of ident) f = Some h'"
  shows "pages_below_max h'"
proof -
  from mutate_returns[OF ok, of ident f] h1 h'
  have m: "max_bit h' = max (max_bit h) ident"
    and s: "\<And>i. slot_at h' i \<noteq> None \<Longrightarrow> i = unat (page_of ident) \<or> slot_at h i \<noteq> None"
    by (auto split: if_splits)
  have "i \<le> unat (page_of (max_bit h'))" if "slot_at h' i = Some p" for i p
  proof -
    from that s[of i] consider "i = unat (page_of ident)" | q where "slot_at h i = Some q"
      by auto
    then show ?thesis
    proof cases
      case 1
      then show ?thesis
        using page_of_mono[of ident "max_bit h'"] by (simp add: m)
    next
      case 2
      then have "i \<le> unat (page_of (max_bit h))"
        using below by (auto simp: pages_below_max_iff)
      then show ?thesis
        using page_of_mono[of "max_bit h" "max_bit h'"] by (simp add: m)
    qed
  qed
  then show ?thesis
    by (simp add: pages_below_max_iff)
qed

lemma apply_operation_below_max:
  assumes "handle_ok h" and "pages_below_max h" and "apply_operation h x = Some h'"
  shows "pages_below_max h'"
proof (cases x)
  case (Set ident)
  with assms(3) show ?thesis
    by (auto simp: abitset_expandable_set_def split: Option.bind_splits
        intro: mutate_below_max[OF assms(1,2)])
next
  case (Unset ident)
  with assms(3) show ?thesis
    by (auto simp: abitset_expandable_unset_def split: Option.bind_splits
        intro: mutate_below_max[OF assms(1,2)])
qed

lemma apply_operations_below_max:
  assumes "handle_ok h" and "pages_below_max h" and "apply_operations h xs = Some h'"
  shows "handle_ok h' \<and> pages_below_max h'"
  using assms
proof (induction xs arbitrary: h)
  case Nil
  then show ?case by simp
next
  case (Cons x xs)
  from apply_operation_returns[OF Cons.prems(1), of x]
  obtain h1 where h1: "apply_operation h x = Some h1" "handle_ok h1"
    by blast
  have "pages_below_max h1"
    by (rule apply_operation_below_max[OF Cons.prems(1,2) h1(1)])
  moreover have "apply_operations h1 xs = Some h'"
    using Cons.prems(3) h1(1) by simp
  ultimately show ?case
    using Cons.IH[OF h1(2)] by blast
qed

lemma block_directory: "block (pages h) 0 b = slot_at h b"
  by (simp add: block_def slot_at_def)

lemma repr_returns:
  assumes ok: "handle_ok h" and below: "pages_below_max h"
    and top: "unat (max_bit h) + 64 < 2 ^ 32"
  shows "\<exists>r. abitset_expandable_repr h = Some r
     \<and> length r = unat (max_bit h) div 64 + 1
     \<and> (\<forall>k < length r. r ! k = word_at h (k div 512) (k mod 512))"
proof -
  let ?M = "unat (max_bit h)"
  define size' where "size' = max_bit h + 1"
  have S: "unat size' = ?M + 1"
    using top by (simp add: size'_def unat_word_ariths)
  have "unat (size' + 63) = ?M + 64"
    using top S by (simp add: unat_word_ariths)
  then have N: "unat (drop_bit 6 (size' + 63)) = (unat size' + 63) div 64"
    by (simp add: drop_bit_eq_div unat_div S)
  let ?r0 = "replicate (unat (drop_bit 6 (size' + 63))) (0 :: 64 word)"
  have len0: "length ?r0 = (unat size' + 63) div 64"
    by (simp add: N)
  have len: "length (pages h) = unat (page_count h)"
    using ok by (simp add: handle_ok_def)
  have cnt: "unat (0 :: 32 word) + length (pages h) < 2 ^ 32"
    using len unat32_bound[of "page_count h"] by simp
  have pg: "\<forall>k p. k < length (pages h) \<and> pages h ! k = Some p \<longrightarrow>
               length p = 512 \<and> unat (0 :: 32 word) + k < 16384
               \<and> (unat (0 :: 32 word) + k) * 32768 < unat size'"
  proof (intro allI impI)
    fix k p assume "k < length (pages h) \<and> pages h ! k = Some p"
    then have slot: "slot_at h k = Some p"
      by (simp add: slot_at_def)
    then have "k \<le> ?M div 262144"
      using below by (auto simp: pages_below_max_iff unat_page_of)
    moreover have "?M div 262144 < 16384"
      using unat32_bound[of "max_bit h"] by simp
    moreover have "(?M div 262144) * 32768 \<le> ?M"
      by simp
    ultimately have "k < 16384" "k * 32768 < unat size'"
      using S by simp_all
    with handle_ok_slot(1)[OF ok slot]
    show "length p = 512 \<and> unat (0 :: 32 word) + k < 16384
               \<and> (unat (0 :: 32 word) + k) * 32768 < unat size'"
      by simp
  qed
  from repr_pages_returns[OF len0 cnt pg]
  obtain r where r: "repr_pages size' 0 (pages h) ?r0 = Some r" "length r = length ?r0"
    and v: "\<And>k. k < length ?r0 \<Longrightarrow> r ! k =
            (case block (pages h) (unat (0 :: 32 word)) (k div 512) of
               None \<Rightarrow> ?r0 ! k | Some p \<Rightarrow> p ! (k mod 512))"
    by blast
  have run: "abitset_expandable_repr h = Some r"
    using len r(1) by (simp add: abitset_expandable_repr_def Let_def size'_def[symmetric])
  have lr: "length r = ?M div 64 + 1"
    using r(2) N S by simp
  have "r ! k = word_at h (k div 512) (k mod 512)" if "k < length r" for k
    using v[of k] that r(2)
    by (simp add: block_directory word_at_def split: option.splits)
  with run lr show ?thesis
    by blast
qed

lemma word_at_max_bit [simp]: "word_at (h\<lparr>max_bit := m\<rparr>) j off = word_at h j off"
  by (simp add: word_at_def slot_at_def)

lemma handle_ok_max_bit [simp]: "handle_ok (h\<lparr>max_bit := m\<rparr>) = handle_ok h"
  by (simp add: handle_ok_def)

lemma load_returns:
  fixes m :: "32 word"
  assumes top: "unat m + 64 < 2 ^ 32"
    and len: "length r = unat m div 64 + 1"
    and nz: "\<forall>k < length r. r ! k \<noteq> 0 \<longrightarrow> k div 512 \<le> unat (page_of m)"
  shows "\<exists>h'. abitset_expandable_load r (m + 1) = Some h'
     \<and> handle_ok h' \<and> max_bit h' = m
     \<and> (\<forall>j off. off < 512 \<longrightarrow> word_at h' j off =
            (if 512 * j + off < length r then r ! (512 * j + off) else 0))"
proof -
  have S: "unat (m + 1) = unat m + 1"
    using top by (simp add: unat_word_ariths)
  have "unat (64 + m) = unat m + 64"
    using top by (simp add: unat_word_ariths)
  then have N: "unat (drop_bit 6 (64 + m)) = length r"
    by (simp add: drop_bit_eq_div unat_div len)
  from expand_returns[OF init_ok, of m]
  obtain h1 where h1: "abitset_expandable_expand abitset_expandable_init m = Some h1"
    "handle_ok h1" "page_of m < page_count h1"
    by blast
  have w1: "word_at h1 j off = 0" if "off < 512" for j off
    using that
    by (simp add: word_at_def expand_slot_at[OF init_ok h1(1)] zalloc_page_nth)
       (simp add: slot_at_def abitset_expandable_init_def)
  have cnt: "unat (0 :: 32 word) + length r < 2 ^ 32"
    using len top by simp
  have fits: "\<forall>k < length r. r ! k \<noteq> 0 \<longrightarrow>
                (unat (0 :: 32 word) + k) div 512 < unat (page_count h1)"
    using nz h1(3) by (auto simp: word_less_nat_alt)
  from load_words_returns[OF h1(2) cnt fits]
  obtain h2 where h2: "load_words 0 r h1 = Some h2" "handle_ok h2"
    and w2: "\<And>j off. off < 512 \<Longrightarrow> word_at h2 j off =
            (if unat (0 :: 32 word) \<le> 512 * j + off \<and> 512 * j + off < unat (0 :: 32 word) + length r
                \<and> r ! (512 * j + off - unat (0 :: 32 word)) \<noteq> 0
             then r ! (512 * j + off - unat (0 :: 32 word)) else word_at h1 j off)"
    by blast
  have run: "abitset_expandable_load r (m + 1) = Some (h2\<lparr>max_bit := m\<rparr>)"
    by (simp add: abitset_expandable_load_def Let_def h1(1) N h2(1))
  have "word_at (h2\<lparr>max_bit := m\<rparr>) j off =
            (if 512 * j + off < length r then r ! (512 * j + off) else 0)"
    if "off < 512" for j off
    by (simp add: w2[OF that] w1[OF that])
  with run h2(2) show ?thesis
    by simp
qed

lemma load_words_ok:
  assumes "handle_ok h" and "load_words i vs h = Some h'"
  shows "handle_ok h'"
  using assms
proof (induction vs arbitrary: i h)
  case Nil
  then show ?case by simp
next
  case (Cons v vs)
  show ?case
  proof (cases "v = 0")
    case True
    with Cons.prems(2) have "load_words (i + 1) vs h = Some h'"
      by simp
    then show ?thesis
      by (rule Cons.IH[OF Cons.prems(1)])
  next
    case False
    let ?pg = "drop_bit 9 i" and ?off = "i AND (PAGE_ENTRIES - 1)"
    from Cons.prems(2) False obtain slot where slot: "load_at (pages h) (unat ?pg) = Some slot"
      by (auto simp: Let_def split: Option.bind_splits)
    then have j: "unat ?pg < unat (page_count h)"
      using Cons.prems(1) by (auto simp: load_at_def handle_ok_def split: if_splits)
    from allocate_returns[OF Cons.prems(1) j]
    obtain h1 p where ld: "load_at (pages h) (unat ?pg) = Some (slot_at h (unat ?pg))"
      and al: "(if slot_at h (unat ?pg) = None then do {
             new_pages \<leftarrow> store_at (pages h) (unat ?pg) (Some zalloc_page);
             Some (h\<lparr>pages := new_pages\<rparr>)
           } else Some h) = Some h1"
      and h1: "handle_ok h1" "slot_at h1 (unat ?pg) = Some p"
      by blast
    have off512: "unat ?off < 512"
      by (simp add: unat_and511)
    from update_word_at[OF h1(1) h1(2) off512, where f = "\<lambda>w. v"]
    obtain h2 where h2: "update_word h1 ?pg ?off (\<lambda>w. v) = Some h2" "handle_ok h2"
      by blast
    from Cons.prems(2) False have "load_words (i + 1) vs h2 = Some h'"
      by (simp add: Let_def ld al h2(1))
    then show ?thesis
      by (rule Cons.IH[OF h2(2)])
  qed
qed

lemma load_ok:
  assumes "abitset_expandable_load repr size' = Some h"
  shows "handle_ok h"
proof -
  from expand_returns[OF init_ok, of "size' - 1"]
  obtain h1 where h1: "abitset_expandable_expand abitset_expandable_init (size' - 1) = Some h1"
    "handle_ok h1"
    by blast
  from assms h1(1) obtain h2 where
    "load_words 0 (take (unat (drop_bit 6 (size' + 63))) repr) h1 = Some h2"
    "h = h2\<lparr>max_bit := size' - 1\<rparr>"
    by (auto simp: abitset_expandable_load_def Let_def split: Option.bind_splits if_splits)
  with load_words_ok[OF h1(2)] show ?thesis
    by simp
qed

lemma cell_in_dense:
  fixes a :: nat
  shows "512 * (a div 262144) + a div 64 mod 512 \<le> a div 64"
proof -
  have "a div 262144 = a div 64 div 4096"
    by (simp add: div_mult2_eq)
  also have "\<dots> \<le> a div 64 div 512"
    by (simp add: div_le_mono2)
  finally have le: "a div 262144 \<le> a div 64 div 512" .
  have "512 * (a div 64 div 512) + a div 64 mod 512 = a div 64"
    by simp
  with le show ?thesis
    by linarith
qed

lemma cell_of_dense:
  fixes a :: nat
  shows "(512 * (a div 262144) + a div 64 mod 512) div 512 = a div 262144"
    and "(512 * (a div 262144) + a div 64 mod 512) mod 512 = a div 64 mod 512"
  by simp_all

lemma round_trip_below_wrap:
  assumes built: "apply_operations abitset_expandable_init xs = Some h"
    and top: "unat (max_bit h) + 64 < 2 ^ 32"
  shows "\<exists>r h'. abitset_expandable_repr h = Some r
     \<and> abitset_expandable_load r (abitset_expandable_size h) = Some h'
     \<and> (\<forall>ident. abitset_expandable_enabled h' ident = abitset_expandable_enabled h ident)"
proof -
  from apply_operations_below_max[OF init_ok init_below_max built]
  have ok: "handle_ok h" and below: "pages_below_max h"
    by simp_all
  from repr_returns[OF ok below top]
  obtain r where r: "abitset_expandable_repr h = Some r" "length r = unat (max_bit h) div 64 + 1"
    and v: "\<And>k. k < length r \<Longrightarrow> r ! k = word_at h (k div 512) (k mod 512)"
    by blast
  have nz: "\<forall>k < length r. r ! k \<noteq> 0 \<longrightarrow> k div 512 \<le> unat (page_of (max_bit h))"
  proof (intro allI impI)
    fix k assume "k < length r" "r ! k \<noteq> 0"
    then have "word_at h (k div 512) (k mod 512) \<noteq> 0"
      by (simp add: v)
    then obtain p where "slot_at h (k div 512) = Some p"
      by (auto simp: word_at_def split: option.splits)
    with below show "k div 512 \<le> unat (page_of (max_bit h))"
      by (auto simp: pages_below_max_iff)
  qed
  from load_returns[OF top r(2) nz]
  obtain h' where h': "abitset_expandable_load r (max_bit h + 1) = Some h'" "handle_ok h'"
    "max_bit h' = max_bit h"
    and w: "\<And>j off. off < 512 \<Longrightarrow> word_at h' j off =
            (if 512 * j + off < length r then r ! (512 * j + off) else 0)"
    by blast
  have "abitset_expandable_enabled h' ident = abitset_expandable_enabled h ident" for ident
  proof (cases "ident < max_bit h")
    case False
    then show ?thesis
      by (simp add: enabled_eq[OF ok] enabled_eq[OF h'(2)] h'(3))
  next
    case True
    let ?k = "512 * unat (page_of ident) + unat (offset_of ident)"
    have "?k \<le> unat ident div 64"
      unfolding unat_page_of unat_offset_of by (rule cell_in_dense)
    also have "\<dots> \<le> unat (max_bit h) div 64"
      using True by (simp add: word_less_nat_alt div_le_mono)
    finally have k: "?k < length r"
      by (simp add: r(2))
    have "word_at h' (unat (page_of ident)) (unat (offset_of ident)) = r ! ?k"
      using w[OF offset_of_bound[of ident], of "unat (page_of ident)"] k by simp
    also have "\<dots> = word_at h (?k div 512) (?k mod 512)"
      by (rule v[OF k])
    also have "\<dots> = word_at h (unat (page_of ident)) (unat (offset_of ident))"
      unfolding unat_page_of unat_offset_of cell_of_dense ..
    finally have "stored h' ident = stored h ident"
      by (simp add: stored_word_at)
    then show ?thesis
      by (simp add: enabled_eq[OF ok] enabled_eq[OF h'(2)] h'(3))
  qed
  with r(1) h'(1) show ?thesis
    by (simp add: abitset_expandable_size_def)
qed

section \<open>Runs on the fresh handle\<close>

text \<open>The operations evaluated on the handle of \<open>abitset_expandable_init\<close>, with the
  directory kept as \<open>replicate\<close> and the pages as updates of the zero page.\<close>

lemma zalloc_page_not_Nil: "zalloc_page \<noteq> []"
  using length_zalloc_page by auto

lemmas eval_defs = abitset_expandable_set_def abitset_expandable_unset_def
  abitset_expandable_expand_def abitset_expandable_init_def update_word_def
  load_at_def store_at_def memcpy_def page_of_def offset_of_def bit_of_def bit_mask_def
  PAGE_ENTRIES_val INITIAL_PAGES_val length_zalloc_page drop_bit_eq_div zalloc_page_not_Nil

lemma set_init_3:
  "abitset_expandable_set abitset_expandable_init 3 =
     Some \<lparr> pages = (replicate 2048 None)[0 := Some (zalloc_page[0 := 8])],
            page_count = 2048, size_field = 262144, max_bit = 3 \<rparr>"
  by (simp add: eval_defs zalloc_page_nth)

lemma set_init_3_9:
  "abitset_expandable_set (the (abitset_expandable_set abitset_expandable_init 3)) 9 =
     Some \<lparr> pages = (replicate 2048 None)[0 := Some (zalloc_page[0 := 520])],
            page_count = 2048, size_field = 262144, max_bit = 9 \<rparr>"
  by (simp add: set_init_3) (simp add: eval_defs zalloc_page_nth)

lemma set_init_9:
  "abitset_expandable_set abitset_expandable_init 9 =
     Some \<lparr> pages = (replicate 2048 None)[0 := Some (zalloc_page[0 := 512])],
            page_count = 2048, size_field = 262144, max_bit = 9 \<rparr>"
  by (simp add: eval_defs zalloc_page_nth)

lemma grow_top: "grow_page_count 16383 2048 = Some 16384"
  by (subst grow_page_count.simps, simp)+

lemma replicate_split:
  "replicate 16384 (None :: page option) = replicate 2048 None @ replicate 14336 None"
  by (simp add: replicate_add[symmetric])

lemma word32_wrap: "(4294967296 :: 32 word) = 0"
  by simp

lemma expand_init_top:
  "abitset_expandable_expand abitset_expandable_init 4294967295 =
     Some \<lparr> pages = (replicate 16384 None)[16383 := Some zalloc_page],
            page_count = 16384, size_field = 0, max_bit = 4294967295 \<rparr>"
  by (simp add: eval_defs grow_top replicate_split list_update_append nth_append Let_def
      word32_wrap)

lemma set_init_top:
  "abitset_expandable_set abitset_expandable_init 4294967295 =
     Some \<lparr> pages = (replicate 16384 None)
                       [16383 := Some (zalloc_page[511 := 9223372036854775808])],
            page_count = 16384, size_field = 0, max_bit = 4294967295 \<rparr>"
  by (simp add: abitset_expandable_set_def expand_init_top)
     (simp add: eval_defs zalloc_page_nth)

lemma replicate_update_0: "0 < n \<Longrightarrow> (replicate n a)[0 := x] = x # replicate (n - 1) a"
  by (cases n) simp_all

lemma count_pages_absent: "count_pages (replicate n None) count = Some count"
  by (induction n) simp_all

lemma count_word_0: "count_word 0 count = count"
  by simp

lemma fold_count_word_0: "(count_word 0 ^^ n) count = count"
  by (induction n) simp_all

lemma count_word_32: "count_word 32 count = count + 1"
  by (subst count_word.simps) simp

lemma set_init_5:
  "abitset_expandable_set abitset_expandable_init 5 =
     Some \<lparr> pages = (replicate 2048 None)[0 := Some (zalloc_page[0 := 32])],
            page_count = 2048, size_field = 262144, max_bit = 5 \<rparr>"
  by (simp add: eval_defs zalloc_page_nth)

lemma count_set_init_5:
  "abitset_expandable_count \<lparr> pages = (replicate 2048 None)[0 := Some (zalloc_page[0 := 32])],
            page_count = 2048, size_field = 262144, max_bit = 5 \<rparr> = Some 1"
  by (simp add: abitset_expandable_count_def replicate_update_0 count_page_def PAGE_ENTRIES_val
      zalloc_page_def PAGE_SIZE_val count_pages_absent fold_count_word_0 count_word_32
      del: count_word.simps)

lemma repr_pages_absent:
  "repr_pages size' i (replicate n None @ ps) repr = repr_pages size' (i + of_nat n) ps repr"
  by (induction n arbitrary: i) (simp_all add: ac_simps)

lemma replicate_update_last:
  "(replicate (Suc n) a)[n := x] = replicate n a @ [x]"
  by (induction n) simp_all

lemma top_directory:
  "(replicate 16384 None)[16383 := x] = replicate 16383 None @ [x]"
  using replicate_update_last[of 16383 None x] by simp

section \<open>The expansion of \<open>unset\<close>\<close>

text \<open>On every well-formed handle \<open>unset(h, id)\<close> returns and expands as \<open>set\<close> does:
  \<open>max_bit\<close>, \<open>page_count\<close>, \<open>size\<close> and the set of allocated pages after \<open>unset\<close> are those
  after \<open>expand\<close> alone and those after \<open>set\<close>; \<open>max_bit\<close> becomes \<open>max(max_bit, id)\<close>; the
  directory has \<open>page_count\<close> entries, more than the page index of \<open>id\<close>; and a target page
  that was absent is allocated and zero-filled, whether or not the bit was ever set. The
  logical size is at least \<open>id + 1\<close> as long as \<open>max_bit\<close> is not \<open>2^32 - 1\<close>.\<close>

lemma unset_expands:
  assumes ok: "handle_ok h"
  shows "\<exists>h1 h'. abitset_expandable_expand h ident = Some h1
     \<and> abitset_expandable_unset h ident = Some h'
     \<and> max_bit h' = max_bit h1 \<and> page_count h' = page_count h1 \<and> size_field h' = size_field h1
     \<and> (\<forall>i. slot_at h' i = None \<longleftrightarrow> slot_at h1 i = None)
     \<and> max_bit h' = max (max_bit h) ident
     \<and> (max_bit h' \<noteq> 4294967295 \<longrightarrow> unat ident + 1 \<le> unat (abitset_expandable_size h'))
     \<and> page_count h \<le> page_count h'
     \<and> page_of ident < page_count h'
     \<and> length (pages h') = unat (page_count h')
     \<and> (slot_at h (unat (page_of ident)) = None \<longrightarrow>
          pages h' ! unat (page_of ident) = Some zalloc_page)
     \<and> (\<exists>h''. abitset_expandable_set h ident = Some h''
          \<and> max_bit h'' = max_bit h' \<and> page_count h'' = page_count h'
          \<and> size_field h'' = size_field h'
          \<and> (\<forall>i. slot_at h'' i = None \<longleftrightarrow> slot_at h' i = None))"
proof -
  let ?rp = "unat (page_of ident)" and ?off = "unat (offset_of ident)"
  define pg where "pg = (case slot_at h ?rp of None \<Rightarrow> zalloc_page | Some q \<Rightarrow> q)"
  from mutate_returns[OF ok, of ident "\<lambda>w. w AND NOT (bit_mask (bit_of ident))"]
  obtain h1 h' where h1: "abitset_expandable_expand h ident = Some h1"
    and h': "update_word h1 (page_of ident) (offset_of ident)
               (\<lambda>w. w AND NOT (bit_mask (bit_of ident))) = Some h'"
    and ok': "handle_ok h'"
    and f: "max_bit h' = max (max_bit h) ident" "page_count h' = page_count h1"
      "size_field h' = size_field h1" "page_count h \<le> page_count h'"
      "page_of ident < page_count h'"
    and s: "\<And>i. slot_at h' i = (if i = ?rp
              then Some (pg[?off := pg ! ?off AND NOT (bit_mask (bit_of ident))])
              else slot_at h i)"
    unfolding pg_def by blast
  from mutate_returns[OF ok, of ident "\<lambda>w. w OR bit_mask (bit_of ident)"] h1
  obtain h'' where h'': "update_word h1 (page_of ident) (offset_of ident)
               (\<lambda>w. w OR bit_mask (bit_of ident)) = Some h''"
    and f'': "max_bit h'' = max (max_bit h) ident" "page_count h'' = page_count h1"
      "size_field h'' = size_field h1"
    and s'': "\<And>i. slot_at h'' i = (if i = ?rp
              then Some (pg[?off := pg ! ?off OR bit_mask (bit_of ident)])
              else slot_at h i)"
    unfolding pg_def by auto
  have run: "abitset_expandable_unset h ident = Some h'"
    by (simp add: abitset_expandable_unset_def h1 h')
  have run'': "abitset_expandable_set h ident = Some h''"
    by (simp add: abitset_expandable_set_def h1 h'')
  have m1: "max_bit h1 = max (max_bit h) ident"
    using expand_returns[OF ok, of ident] h1 by auto
  have s1: "slot_at h' i = None \<longleftrightarrow> slot_at h1 i = None" for i
    by (simp add: s expand_slot_at[OF ok h1])
  have s2: "slot_at h'' i = None \<longleftrightarrow> slot_at h' i = None" for i
    by (simp add: s s'')
  have len: "length (pages h') = unat (page_count h')"
    using ok' by (simp add: handle_ok_def)
  have at: "pages h' ! ?rp = slot_at h' ?rp"
    using f(5) len by (simp add: slot_at_def word_less_nat_alt)
  have zero: "slot_at h ?rp = None \<Longrightarrow> pages h' ! ?rp = Some zalloc_page"
  proof -
    assume "slot_at h ?rp = None"
    then have "pg = zalloc_page"
      by (simp add: pg_def)
    moreover have "zalloc_page ! ?off = 0"
      using offset_of_bound[of ident] by (simp add: zalloc_page_nth)
    moreover from this have "zalloc_page[?off := 0] = zalloc_page"
      using list_update_id[of zalloc_page ?off] by simp
    ultimately show ?thesis
      by (simp add: at s)
  qed
  have sz: "max_bit h' \<noteq> 4294967295 \<Longrightarrow> unat ident + 1 \<le> unat (abitset_expandable_size h')"
    using size_ge[of ident h'] f(1) by simp
  from h1 run run'' m1 f f'' s1 s2 len zero sz show ?thesis
    by simp
qed

lemma unset_expands_fresh:
  "handle_ok abitset_expandable_init
   \<and> slot_at abitset_expandable_init (unat (page_of 5)) = None
   \<and> (\<exists>h'. abitset_expandable_unset abitset_expandable_init 5 = Some h'
         \<and> max_bit h' = 5
         \<and> unat (5 :: 32 word) + 1 \<le> unat (abitset_expandable_size h')
         \<and> pages h' ! unat (page_of 5) = Some zalloc_page)"
proof -
  have a: "slot_at abitset_expandable_init (unat (page_of 5)) = None"
    by (simp add: slot_at_def abitset_expandable_init_def)
  have b: "max (max_bit abitset_expandable_init) 5 = 5"
    by (simp add: abitset_expandable_init_def)
  from unset_expands[OF init_ok, of 5] a b init_ok show ?thesis
    by auto
qed

section \<open>The claims\<close>

text \<open>
  Claim C1: for every handle \<open>h\<close> and every id \<open>a\<close>, immediately after \<open>set(h, a)\<close> the query
  \<open>test(h, a)\<close> returns true, and after a subsequent \<open>unset(h, a)\<close> it returns false.

  The code does not do this: \<open>abitset_expandable_expand\<close> raises \<open>max_bit\<close> to \<open>a\<close>, and
  \<open>abitset_expandable_enabled\<close> answers false for every id \<open>>= max_bit\<close>. On the fresh
  handle, \<open>set(h, 5)\<close> followed by \<open>test(h, 5)\<close> returns false.
\<close>

theorem set_then_test_fresh:
  "do { h \<leftarrow> abitset_expandable_set abitset_expandable_init 5;
        abitset_expandable_enabled h 5 } = Some False"
  by (simp add: eval_defs zalloc_page_nth abitset_expandable_enabled_def)

text \<open>
  Claim C2: for every handle \<open>h\<close> and every pair of distinct ids \<open>a\<close> and \<open>b\<close>, calling
  \<open>set(h, b)\<close> does not change the result of \<open>test(h, a)\<close>; in particular, setting a single
  very large id never corrupts or falsely sets a smaller id.

  The code does not do this: the page index is \<open>id >> 18\<close> while a page holds only
  \<open>64 * PAGE_ENTRIES = 2^15\<close> bits, so bits 15 to 17 of an id select nothing, and ids that
  differ only there share one stored bit. After \<open>set(h, 40000)\<close> on the fresh handle, id 7
  tests false; \<open>set(h, 32775)\<close> then makes id 7 test true.
\<close>

theorem set_changes_other_id:
  "do { h1 \<leftarrow> abitset_expandable_set abitset_expandable_init 40000;
        before \<leftarrow> abitset_expandable_enabled h1 7;
        h2 \<leftarrow> abitset_expandable_set h1 32775;
        after \<leftarrow> abitset_expandable_enabled h2 7;
        Some (before, after) } = Some (False, True)"
  by (simp add: eval_defs zalloc_page_nth abitset_expandable_enabled_def)

text \<open>
  Claim C3: the addressing of \<open>set\<close>, \<open>unset\<close> and \<open>test\<close> follows resolution (a) of the
  specification: the page index of \<open>n\<close> is \<open>n >> log2(64*W)\<close> for the page word count \<open>W\<close>
  (shift 15 for \<open>W = 512\<close>), the word offset is \<open>(n / 64) mod W\<close>, the bit offset is
  \<open>n mod 64\<close>, and no two ids alias.

  The code does not do this: it shifts by 18. For id 32768 the code's page index is 0 and
  the specification's is 1, and ids 0 and 32768 select the same bit of the same word of the
  same page.
\<close>

theorem page_index_not_spec:
  "page_of 32768 = 0 \<and> spec_page_index 32768 = 1 \<and> same_cell 0 32768"
  by (simp add: spec_page_index_def spec_page_shift_val same_cell_def page_of_def offset_of_def bit_of_def
      PAGE_ENTRIES_val drop_bit_eq_div)

text \<open>
  Claim C4: for every handle \<open>h\<close> built from a finite sequence of \<open>set\<close> and \<open>unset\<close>
  operations, \<open>from_dense_array(to_dense_array(h), logical_size(h))\<close> answers every
  \<open>test(id)\<close> with \<open>id\<close> in \<open>[0, max_bit]\<close> as \<open>h\<close> does.

  The code does not do this for the handle built by \<open>set(h, 2^32 - 1)\<close>:
  \<open>abitset_expandable_repr\<close> computes \<open>size = max_bit + 1 = 0\<close> and
  \<open>num_entries = (size + 63) >> 6 = 0\<close>, allocates a buffer of no words, and then copies the
  512 words of page 16383 to offset \<open>16383 << 9\<close> of it: a write outside the buffer, and no
  dense array to load from. Below the wrap-around, for \<open>max_bit <= 2^32 - 65\<close>, the round
  trip does hold (lemma \<open>round_trip_below_wrap\<close>).
\<close>

theorem repr_overruns:
  "abitset_expandable_set abitset_expandable_init 4294967295 \<noteq> None
   \<and> do { h \<leftarrow> abitset_expandable_set abitset_expandable_init 4294967295;
          abitset_expandable_repr h } = None"
  by (simp add: set_init_top abitset_expandable_repr_def top_directory repr_pages_absent
      memcpy_def PAGE_ENTRIES_val PAGE_SIZE_val drop_bit_eq_div Let_def)

text \<open>
  Claim C5: for every handle \<open>h\<close> built from a finite sequence of \<open>set\<close> and \<open>unset\<close>
  operations, \<open>count(h)\<close> is the number of ids in \<open>[0, logical_size(h))\<close> for which
  \<open>test(h, id)\<close> is true.

  The code does not do this: after \<open>set(h, 5)\<close> on the fresh handle \<open>count\<close> returns 1, the
  logical size is 6, and \<open>test\<close> is true for none of the ids 0 to 5.
\<close>

theorem count_not_test_count:
  "do { h \<leftarrow> abitset_expandable_set abitset_expandable_init 5;
        c \<leftarrow> abitset_expandable_count h;
        Some (unat c, length (filter (\<lambda>i. abitset_expandable_enabled h (of_nat i) = Some True)
                                [0..<unat (abitset_expandable_size h)])) }
   = Some (1, 0)"
  by (simp add: set_init_5 count_set_init_5 abitset_expandable_size_def upt_conv_Cons)
     (simp add: eval_defs abitset_expandable_enabled_def)

text \<open>
  Claim C6: \<open>test(h, id)\<close> returns false if \<open>id >= max_bit\<close>, or if the page index is at or
  beyond the directory capacity, or if the page at that index was never allocated; otherwise
  it returns the addressed stored bit; it never allocates and never changes the handle.

  On a well-formed handle \<open>abitset_expandable_enabled\<close> always returns, and its answer is the
  one the claim describes, the stored bit being bit \<open>id & 63\<close> of word
  \<open>(id >> 6) & (PAGE_ENTRIES - 1)\<close> of page \<open>id >> 18\<close>. The source function assigns to nothing
  reachable from \<open>h\<close>, so its embedding returns the answer only: the handle after the call is
  the handle before it.
\<close>

theorem enabled_returns:
  assumes "handle_ok h"
  shows "abitset_expandable_enabled h ident =
           Some (if max_bit h \<le> ident then False
                 else if page_count h \<le> page_of ident then False
                 else case pages h ! unat (page_of ident) of
                        None \<Rightarrow> False
                      | Some p \<Rightarrow> bit (p ! unat (offset_of ident)) (unat (bit_of ident)))"
proof -
  have "page_of ident < page_count h \<Longrightarrow>
          slot_at h (unat (page_of ident)) = pages h ! unat (page_of ident)"
    using assms by (simp add: slot_at_def handle_ok_def word_less_nat_alt)
  moreover have "page_count h \<le> page_of ident \<Longrightarrow> slot_at h (unat (page_of ident)) = None"
    using assms by (simp add: slot_at_def handle_ok_def word_le_nat_alt)
  ultimately show ?thesis
    by (auto simp: enabled_eq[OF assms] stored_def not_le)
qed

theorem enabled_returns_witness:
  "handle_ok (the (abitset_expandable_set (the (abitset_expandable_set abitset_expandable_init 3)) 9))
   \<and> abitset_expandable_enabled
         (the (abitset_expandable_set (the (abitset_expandable_set abitset_expandable_init 3)) 9)) 3
       = Some True"
proof -
  let ?h = "the (abitset_expandable_set (the (abitset_expandable_set abitset_expandable_init 3)) 9)"
  have ok: "handle_ok ?h"
    by (intro set_ok init_ok)
  show ?thesis
    using enabled_returns[OF ok, of 3] ok
    by (simp add: set_init_3_9 page_of_def offset_of_def bit_of_def PAGE_ENTRIES_val
        drop_bit_eq_div length_zalloc_page)
qed

text \<open>
  Claim C7: every expand-triggering operation (\<open>set\<close> and \<open>unset\<close> with argument \<open>id\<close>)
  updates \<open>max_bit\<close> to \<open>max(max_bit, id)\<close>, so over any sequence of \<open>set\<close> and \<open>unset\<close> calls
  on a handle \<open>max_bit\<close> never decreases.

  On a well-formed handle \<open>expand\<close>, \<open>set\<close> and \<open>unset\<close> return a handle whose \<open>max_bit\<close> is
  the maximum of the old one and \<open>id\<close>, and every sequence of \<open>set\<close> and \<open>unset\<close> calls returns
  a handle whose \<open>max_bit\<close> is at least the one it started from.
\<close>

theorem max_bit_monotone:
  assumes "handle_ok h"
  shows "(\<exists>h'. abitset_expandable_expand h ident = Some h' \<and> max_bit h' = max (max_bit h) ident)
       \<and> (\<exists>h'. abitset_expandable_set h ident = Some h' \<and> max_bit h' = max (max_bit h) ident)
       \<and> (\<exists>h'. abitset_expandable_unset h ident = Some h' \<and> max_bit h' = max (max_bit h) ident)
       \<and> (\<exists>h'. apply_operations h xs = Some h' \<and> max_bit h \<le> max_bit h')"
  using expand_returns[OF assms, of ident] set_returns[OF assms, of ident]
    unset_returns[OF assms, of ident] apply_operations_returns[OF assms, of xs]
  by blast

theorem max_bit_monotone_witness:
  "handle_ok (the (abitset_expandable_set abitset_expandable_init 9))
   \<and> max_bit (the (abitset_expandable_set abitset_expandable_init 9)) = 9
   \<and> (\<exists>h'. abitset_expandable_expand (the (abitset_expandable_set abitset_expandable_init 9)) 4
            = Some h' \<and> max_bit h' = 9)
   \<and> (\<exists>h'. abitset_expandable_set (the (abitset_expandable_set abitset_expandable_init 9)) 4
            = Some h' \<and> max_bit h' = 9)
   \<and> (\<exists>h'. abitset_expandable_unset (the (abitset_expandable_set abitset_expandable_init 9)) 4
            = Some h' \<and> max_bit h' = 9)
   \<and> (\<exists>h'. abitset_expandable_unset (the (abitset_expandable_set abitset_expandable_init 9)) 12
            = Some h' \<and> max_bit h' = 12)
   \<and> (\<exists>h'. apply_operations (the (abitset_expandable_set abitset_expandable_init 9))
                  [Unset 4, Set 6] = Some h'
          \<and> 9 \<le> max_bit h')"
proof -
  let ?h = "the (abitset_expandable_set abitset_expandable_init 9)"
  have ok: "handle_ok ?h"
    by (intro set_ok init_ok)
  have m: "max_bit ?h = 9"
    by (simp add: set_init_9)
  have below: "max (9 :: 32 word) 4 = 9" and above: "max (9 :: 32 word) 12 = 12"
    by simp_all
  from max_bit_monotone[OF ok, of 4 "[Unset 4, Set 6]"] max_bit_monotone[OF ok, of 12 "[]"]
  show ?thesis
    unfolding m below above using ok m by blast
qed

text \<open>
  Claim C8: after \<open>expand\<close> runs for an id, the \<open>size\<close> field equals the exact integer
  \<open>(page_index + 1) * 2^18\<close> whenever that value is larger than the previous \<open>size\<close>, for
  every page index up to the largest one a 32-bit id reaches.

  The code does not do this at page index 16383: \<open>(16383 + 1) << 18\<close> is \<open>2^32\<close>, which is 0
  in \<open>uint32_t\<close>. For id \<open>2^32 - 1\<close> on the fresh handle the exact value is 4294967296, the
  previous \<open>size\<close> is 0, and \<open>size\<close> is still 0 after the call.
\<close>

theorem expand_size_wraps:
  "(unat (page_of 4294967295) + 1) * 2 ^ 18 = (4294967296 :: nat)
   \<and> size_field abitset_expandable_init = 0
   \<and> map_option size_field (abitset_expandable_expand abitset_expandable_init 4294967295) = Some 0"
  by (simp add: expand_init_top) (simp add: page_of_def drop_bit_eq_div abitset_expandable_init_def)

text \<open>
  Claim C9: for every handle \<open>h\<close> and every id, \<open>unset(h, id)\<close> invokes the same expansion
  as \<open>set\<close>: it raises \<open>max_bit\<close> to at least \<open>id\<close> (so \<open>logical_size(h)\<close> becomes at least
  \<open>id + 1\<close>), grows the directory if needed, and allocates the zero-filled target page if
  absent, even when the bit being cleared was never set.

  The code does not do this once \<open>max_bit\<close> is \<open>2^32 - 1\<close>: \<open>abitset_expandable_size\<close>
  computes \<open>max_bit + 1\<close> in \<open>uint32_t\<close>, which overflows to 0. After \<open>set(h, 2^32 - 1)\<close> on
  the fresh handle, \<open>unset(h, 5)\<close> returns and leaves a logical size of 0, not at least 6.
  The rest of the claim holds on every well-formed handle (lemma \<open>unset_expands\<close>).
\<close>

theorem unset_size_wraps:
  "abitset_expandable_set abitset_expandable_init 4294967295 \<noteq> None
   \<and> abitset_expandable_unset (the (abitset_expandable_set abitset_expandable_init 4294967295)) 5
       \<noteq> None
   \<and> \<not> unat (5 :: 32 word) + 1 \<le> unat (abitset_expandable_size
         (the (abitset_expandable_unset
                (the (abitset_expandable_set abitset_expandable_init 4294967295)) 5)))"
proof -
  let ?h1 = "the (abitset_expandable_set abitset_expandable_init 4294967295)"
  have ok: "handle_ok ?h1"
    by (intro set_ok init_ok)
  have m: "max_bit ?h1 = 4294967295"
    by (simp add: set_init_top)
  from unset_returns[OF ok, of 5] m
  obtain h2 where "abitset_expandable_unset ?h1 5 = Some h2" "max_bit h2 = 4294967295"
    by auto
  then show ?thesis
    by (simp add: set_init_top abitset_expandable_size_def)
qed

text \<open>
  Claim C10: \<open>from_dense_array\<close> (\<open>abitset_expandable_load\<close>) with declared bit count 0
  underflows \<open>size - 1\<close> in 32-bit arithmetic to \<open>2^32 - 1\<close>: the resulting handle has
  \<open>max_bit = 2^32 - 1\<close>, so \<open>logical_size\<close>, computed as \<open>max_bit + 1\<close> in 32-bit arithmetic,
  wraps around to 0, and the expand call with id \<open>2^32 - 1\<close> grows the directory to 16384
  entries and allocates the page at index 16383.

  Whatever the array \<open>repr\<close>, the call returns the handle below: no word of \<open>repr\<close> is read,
  since the number of entries is \<open>(0 + 63) >> 6 = 0\<close>.
\<close>

theorem load_zero_bits:
  "abitset_expandable_load repr 0 =
     Some \<lparr> pages = (replicate 16384 None)[16383 := Some zalloc_page],
            page_count = 16384, size_field = 0, max_bit = 4294967295 \<rparr>
   \<and> abitset_expandable_size \<lparr> pages = (replicate 16384 None)[16383 := Some zalloc_page],
            page_count = 16384, size_field = 0, max_bit = 4294967295 \<rparr> = 0"
proof -
  have "(0 :: 32 word) - 1 = 4294967295"
    by simp
  then show ?thesis
    by (simp add: abitset_expandable_load_def expand_init_top abitset_expandable_size_def
        drop_bit_eq_div del: diff_0)
qed

end

